theory Spec2Isabelle
  imports Complex_Main
begin

section \<open>JavaScript values used by the resume scorer\<close>

text \<open>
  The scorer is the function \<open>analyzeResume\<close> of the \<open>ResumeScoring\<close> component.
  It works on one JavaScript string and on JavaScript numbers.

  Strings. A JavaScript string is a sequence of UTF-16 code units. The model is
  \<open>string\<close> (a \<open>char list\<close>), one \<open>char\<close> per code unit, and so covers the strings
  whose code units are all below 256 (Latin-1). On these, \<open>length\<close>, \<open>toLowerCase\<close>,
  \<open>trim\<close>, \<open>includes\<close>, \<open>split\<close> and the three regular expressions of the source are
  modelled as ECMAScript defines them. The keyword analysis is modelled a second time
  on texts that may also hold the dotted capital and the dotless small i, whose
  lower-case forms are not those of \<open>I\<close> and \<open>i\<close>.

  Numbers. A JavaScript number is an IEEE 754 binary64 value. The model is \<open>jsnum\<close>: a
  finite value (kept as the rational it denotes), the two infinities, or NaN. Every
  arithmetic operator rounds its exact result to the nearest binary64 value (ties to
  even) with \<open>fl\<close>. The sign of zero is not modelled: no comparison or operator of the
  source tells \<open>-0\<close> from \<open>0\<close>.
\<close>

datatype jsnum = Fin rat | PInf | NInf | NaN

subsection \<open>Rounding to binary64\<close>

fun bitlen :: "nat \<Rightarrow> nat" where
  "bitlen n = (if n = 0 then 0 else Suc (bitlen (n div 2)))"

declare bitlen.simps [simp del]

definition pow2 :: "int \<Rightarrow> rat" where
  "pow2 k = (if 0 \<le> k then 2 ^ nat k else 1 / 2 ^ nat (- k))"

text \<open>
  For \<open>0 < x\<close>, the exponent \<open>e\<close> with \<open>2^e \<le> x < 2^(e+1)\<close>. At \<open>x = 0\<close> the value
  is \<open>0\<close>.
\<close>

definition ilog2 :: "rat \<Rightarrow> int" where
  "ilog2 x = (if 1 \<le> x then int (bitlen (nat \<lfloor>x\<rfloor>)) - 1
              else - int (bitlen (nat (\<lceil>1 / x\<rceil> - 1))))"

definition round_half_even :: "rat \<Rightarrow> int" where
  "round_half_even x =
     (let f = \<lfloor>x\<rfloor>; d = x - of_int f
      in if d < 1 / 2 then f
         else if 1 / 2 < d then f + 1
         else if even f then f else f + 1)"

text \<open>
  The binary64 value nearest to the rational \<open>x\<close>: 53 significant bits, least
  exponent \<open>-1074\<close> (subnormal numbers), and an infinity when the rounded value
  reaches \<open>2^1024\<close>.
\<close>

definition fl :: "rat \<Rightarrow> jsnum" where
  "fl x =
     (if x = 0 then Fin 0
      else let q = max (ilog2 \<bar>x\<bar> - 52) (- 1074);
               y = of_int (round_half_even (x / pow2 q)) * pow2 q
           in if 1024 \<le> ilog2 \<bar>y\<bar> then (if 0 < y then PInf else NInf)
              else Fin y)"

subsection \<open>The operators of the source\<close>

text \<open>\<open>a - b\<close>\<close>

fun jsub :: "jsnum \<Rightarrow> jsnum \<Rightarrow> jsnum" where
  "jsub NaN _ = NaN"
| "jsub _ NaN = NaN"
| "jsub (Fin x) (Fin y) = fl (x - y)"
| "jsub (Fin x) PInf = NInf"
| "jsub (Fin x) NInf = PInf"
| "jsub PInf PInf = NaN"
| "jsub PInf _ = PInf"
| "jsub NInf NInf = NaN"
| "jsub NInf _ = NInf"

text \<open>\<open>a + b\<close>\<close>

fun jadd :: "jsnum \<Rightarrow> jsnum \<Rightarrow> jsnum" where
  "jadd NaN _ = NaN"
| "jadd _ NaN = NaN"
| "jadd (Fin x) (Fin y) = fl (x + y)"
| "jadd (Fin x) PInf = PInf"
| "jadd (Fin x) NInf = NInf"
| "jadd PInf NInf = NaN"
| "jadd PInf _ = PInf"
| "jadd NInf PInf = NaN"
| "jadd NInf _ = NInf"

text \<open>\<open>a * b\<close>\<close>

fun jmul :: "jsnum \<Rightarrow> jsnum \<Rightarrow> jsnum" where
  "jmul NaN _ = NaN"
| "jmul _ NaN = NaN"
| "jmul (Fin x) (Fin y) = fl (x * y)"
| "jmul (Fin x) PInf = (if x = 0 then NaN else if 0 < x then PInf else NInf)"
| "jmul (Fin x) NInf = (if x = 0 then NaN else if 0 < x then NInf else PInf)"
| "jmul PInf (Fin y) = (if y = 0 then NaN else if 0 < y then PInf else NInf)"
| "jmul NInf (Fin y) = (if y = 0 then NaN else if 0 < y then NInf else PInf)"
| "jmul PInf PInf = PInf"
| "jmul PInf NInf = NInf"
| "jmul NInf PInf = NInf"
| "jmul NInf NInf = PInf"

text \<open>
  \<open>a / b\<close>. Every finite divisor of the source is a length or a positive literal, so
  a zero divisor is \<open>+0\<close>.
\<close>

fun jdiv :: "jsnum \<Rightarrow> jsnum \<Rightarrow> jsnum" where
  "jdiv NaN _ = NaN"
| "jdiv _ NaN = NaN"
| "jdiv (Fin x) (Fin y) =
     (if y = 0 then (if x = 0 then NaN else if 0 < x then PInf else NInf)
      else fl (x / y))"
| "jdiv (Fin x) _ = Fin 0"
| "jdiv PInf (Fin y) = (if 0 \<le> y then PInf else NInf)"
| "jdiv NInf (Fin y) = (if 0 \<le> y then NInf else PInf)"
| "jdiv _ _ = NaN"

text \<open>\<open>a < b\<close>: false as soon as one side is NaN.\<close>

fun jlt :: "jsnum \<Rightarrow> jsnum \<Rightarrow> bool" where
  "jlt NaN _ = False"
| "jlt _ NaN = False"
| "jlt (Fin x) (Fin y) = (x < y)"
| "jlt (Fin x) PInf = True"
| "jlt (Fin x) NInf = False"
| "jlt PInf _ = False"
| "jlt NInf NInf = False"
| "jlt NInf _ = True"

text \<open>\<open>a <= b\<close>: false as soon as one side is NaN.\<close>

fun jle :: "jsnum \<Rightarrow> jsnum \<Rightarrow> bool" where
  "jle NaN _ = False"
| "jle _ NaN = False"
| "jle (Fin x) (Fin y) = (x \<le> y)"
| "jle (Fin x) PInf = True"
| "jle (Fin x) NInf = False"
| "jle PInf PInf = True"
| "jle PInf _ = False"
| "jle NInf _ = True"

fun Math_abs :: "jsnum \<Rightarrow> jsnum" where
  "Math_abs (Fin x) = Fin \<bar>x\<bar>"
| "Math_abs PInf = PInf"
| "Math_abs NInf = PInf"
| "Math_abs NaN = NaN"

fun Math_min :: "jsnum \<Rightarrow> jsnum \<Rightarrow> jsnum" where
  "Math_min NaN _ = NaN"
| "Math_min _ NaN = NaN"
| "Math_min a b = (if jlt b a then b else a)"

fun Math_max :: "jsnum \<Rightarrow> jsnum \<Rightarrow> jsnum" where
  "Math_max NaN _ = NaN"
| "Math_max _ NaN = NaN"
| "Math_max a b = (if jlt a b then b else a)"

text \<open>
  \<open>Math.round\<close>: the nearest integer, a tie going towards \<open>+\<infinity>\<close>; the infinities and
  NaN are returned as they are.
\<close>

fun Math_round :: "jsnum \<Rightarrow> jsnum" where
  "Math_round (Fin x) = Fin (of_int \<lfloor>x + 1 / 2\<rfloor>)"
| "Math_round a = a"

text \<open>An array length, as a number.\<close>

definition num :: "nat \<Rightarrow> jsnum" where
  "num n = Fin (of_nat n)"

subsection \<open>Strings\<close>

definition code :: "char \<Rightarrow> nat" where
  "code c = of_char c"

text \<open>\<open>toLowerCase\<close> on the code units below 256: A-Z, and U+00C0-U+00DE without U+00D7.\<close>

definition isUpper :: "char \<Rightarrow> bool" where
  "isUpper c =
     (let n = code c
      in (65 \<le> n \<and> n \<le> 90) \<or> (192 \<le> n \<and> n \<le> 222 \<and> n \<noteq> 215))"

definition lower_char :: "char \<Rightarrow> char" where
  "lower_char c = (if isUpper c then char_of (code c + 32) else c)"

definition toLowerCase :: "string \<Rightarrow> string" where
  "toLowerCase s = map lower_char s"

text \<open>
  White space and line terminators below 256: TAB, LF, VT, FF, CR, SP, NBSP. It is
  the class \<open>\s\<close> of a regular expression and the set that \<open>trim\<close> strips.
\<close>

definition isSpace :: "char \<Rightarrow> bool" where
  "isSpace c = (code c \<in> {9, 10, 11, 12, 13, 32, 160})"

text \<open>The class \<open>\d\<close>.\<close>

definition isDigit :: "char \<Rightarrow> bool" where
  "isDigit c = (48 \<le> code c \<and> code c \<le> 57)"

text \<open>The class \<open>\w\<close>, which decides \<open>\b\<close>: letters A-Z and a-z, digits, underscore.\<close>

definition isWordChar :: "char \<Rightarrow> bool" where
  "isWordChar c =
     (let n = code c
      in (65 \<le> n \<and> n \<le> 90) \<or> (97 \<le> n \<and> n \<le> 122) \<or> (48 \<le> n \<and> n \<le> 57) \<or> n = 95)"

text \<open>The class \<open>[.!?]\<close>.\<close>

definition isTerminator :: "char \<Rightarrow> bool" where
  "isTerminator c = (c = CHR ''.'' \<or> c = CHR ''!'' \<or> c = CHR ''?'')"

definition trim :: "string \<Rightarrow> string" where
  "trim s = rev (dropWhile isSpace (rev (dropWhile isSpace s)))"

primrec startsWith :: "string \<Rightarrow> string \<Rightarrow> bool" where
  "startsWith s [] = True"
| "startsWith s (p # ps) = (case s of [] \<Rightarrow> False | c # cs \<Rightarrow> c = p \<and> startsWith cs ps)"

text \<open>\<open>s.includes(p)\<close>: \<open>p\<close> occurs in \<open>s\<close> as a contiguous substring.\<close>

primrec includes_str :: "string \<Rightarrow> string \<Rightarrow> bool" where
  "includes_str [] p = (p = [])"
| "includes_str (c # cs) p = (startsWith (c # cs) p \<or> includes_str cs p)"

text \<open>
  \<open>s.split(/C+/)\<close> for a character class \<open>C\<close>: the fragments between the maximal runs
  of characters of \<open>C\<close>. A run at the start or at the end of \<open>s\<close> gives an empty
  fragment there, and the empty string gives one empty fragment. \<open>frag\<close> is the
  fragment being read, reversed; \<open>inrun\<close> says that the last character was in \<open>C\<close>.
\<close>

fun split_go :: "(char \<Rightarrow> bool) \<Rightarrow> string \<Rightarrow> bool \<Rightarrow> string \<Rightarrow> string list" where
  "split_go C frag inrun [] = [rev frag]"
| "split_go C frag inrun (c # cs) =
     (if C c then (if inrun then split_go C [] True cs
                   else rev frag # split_go C [] True cs)
      else split_go C (c # frag) False cs)"

definition split :: "(char \<Rightarrow> bool) \<Rightarrow> string \<Rightarrow> string list" where
  "split C s = split_go C [] False s"

text \<open>
  \<open>/[.!?]$/.test(s)\<close>: without the \<open>m\<close> flag \<open>$\<close> is the end of the input, so the last
  character of \<open>s\<close> is one of the three.
\<close>

definition test_end_punct :: "string \<Rightarrow> bool" where
  "test_end_punct s = (case rev s of [] \<Rightarrow> False | c # _ \<Rightarrow> isTerminator c)"

text \<open>
  \<open>/\b\d{4}\b/.test(s)\<close>. \<open>year_here prev s\<close>: the expression matches at the start of
  \<open>s\<close>, where \<open>prev\<close> is the character before \<open>s\<close> if there is one. \<open>\b\<close> holds where
  exactly one of the two neighbours is a word character, the outside of the string
  counting as none.
\<close>

definition year_here :: "char option \<Rightarrow> string \<Rightarrow> bool" where
  "year_here prev s =
     (case s of
        a # b # c # d # rest \<Rightarrow>
          isDigit a \<and> isDigit b \<and> isDigit c \<and> isDigit d
          \<and> ((case prev of None \<Rightarrow> False | Some p \<Rightarrow> isWordChar p) \<noteq> isWordChar a)
          \<and> (isWordChar d \<noteq> (case rest of [] \<Rightarrow> False | r # _ \<Rightarrow> isWordChar r))
      | _ \<Rightarrow> False)"

fun test_year_from :: "char option \<Rightarrow> string \<Rightarrow> bool" where
  "test_year_from prev [] = False"
| "test_year_from prev (c # cs) = (year_here prev (c # cs) \<or> test_year_from (Some c) cs)"

definition test_year :: "string \<Rightarrow> bool" where
  "test_year s = test_year_from None s"

text \<open>
  The character to the left of the position that follows \<open>pre\<close>, when the text read so
  far is \<open>pre\<close> and \<open>prev\<close> is the character before it.
\<close>

definition left_of :: "char option \<Rightarrow> string \<Rightarrow> char option" where
  "left_of prev pre = (if pre = [] then prev else Some (last pre))"

section \<open>The scorer\<close>

record ScoreBreakdown =
  formatting :: jsnum
  "keywords" :: jsnum
  grammar :: jsnum
  readability :: jsnum

record ReadabilityMetrics =
  sentences :: jsnum
  avgWordsPerSentence :: jsnum
  complexWords :: jsnum

record ResumeAnalysis =
  overall :: jsnum
  breakdown :: ScoreBreakdown
  suggestions :: "string list"
  matchedKeywords :: "string list"
  grammarIssues :: "string list"
  readabilityMetrics :: ReadabilityMetrics

definition jobKeywords :: "string list" where
  "jobKeywords =
     [''react'', ''javascript'', ''typescript'', ''python'', ''node.js'', ''aws'', ''docker'',
      ''leadership'', ''management'', ''team'', ''project'', ''agile'', ''scrum'',
      ''communication'', ''problem-solving'', ''analytical'', ''strategic'',
      ''experience'', ''skills'', ''education'', ''certification'', ''achievement'',
      ''development'', ''design'', ''implementation'', ''optimization'', ''collaboration'']"

text \<open>The locals \<open>sentences\<close> and \<open>words\<close>.\<close>

definition sentences_of :: "string \<Rightarrow> string list" where
  "sentences_of content = filter (\<lambda>s. 0 < length (trim s)) (split isTerminator content)"

definition words_of :: "string \<Rightarrow> string list" where
  "words_of content = filter (\<lambda>w. 0 < length w) (split isSpace content)"

text \<open>Keyword analysis.\<close>

definition matched_of :: "string \<Rightarrow> string list" where
  "matched_of content =
     (let text = toLowerCase content
      in filter (\<lambda>keyword. includes_str text (toLowerCase keyword)) jobKeywords)"

definition keywordScore :: "string \<Rightarrow> jsnum" where
  "keywordScore content =
     Math_min (jmul (jdiv (num (length (matched_of content))) (num (length jobKeywords)))
                    (Fin 100))
              (Fin 100)"

text \<open>Grammar analysis. Each \<open>push\<close> appends to the array built so far.\<close>

definition issue_lowercase_i :: string where
  "issue_lowercase_i = ''Use of lowercase \"i\" instead of \"I\"''"

definition issue_punctuation :: string where
  "issue_punctuation = ''Missing punctuation at the end''"

definition issue_spaces :: string where
  "issue_spaces = ''Multiple consecutive spaces found''"

definition issues_of :: "string \<Rightarrow> string list" where
  "issues_of content =
     (let text = toLowerCase content;
          g0 = [];
          g1 = (if includes_str text '' i '' then g0 @ [issue_lowercase_i] else g0);
          g2 = (if \<not> test_end_punct (trim content) then g1 @ [issue_punctuation] else g1);
          g3 = (if includes_str content ''  '' then g2 @ [issue_spaces] else g2)
      in g3)"

definition grammarScore :: "string \<Rightarrow> jsnum" where
  "grammarScore content =
     Math_max (jsub (Fin 100) (jmul (num (length (issues_of content))) (Fin 15))) (Fin 0)"

text \<open>Readability analysis.\<close>

definition avgWords :: "string \<Rightarrow> jsnum" where
  "avgWords content =
     jdiv (num (length (words_of content))) (num (length (sentences_of content)))"

definition complex_of :: "string \<Rightarrow> nat" where
  "complex_of content = length (filter (\<lambda>word. 7 < length word) (words_of content))"

definition readabilityScore :: "string \<Rightarrow> jsnum" where
  "readabilityScore content =
     Math_min
       (jsub (jsub (Fin 100) (jmul (Math_abs (jsub (avgWords content) (Fin 15))) (Fin 2)))
             (jmul (jdiv (num (complex_of content)) (num (length (words_of content))))
                   (Fin 50)))
       (Fin 100)"

text \<open>Formatting analysis. Each \<open>-=\<close> updates the score computed so far.\<close>

definition formattingScore :: "string \<Rightarrow> jsnum" where
  "formattingScore content =
     (let f0 = Fin 100;
          f1 = (if length content < 200 then jsub f0 (Fin 30) else f0);
          f2 = (if 5000 < length content then jsub f1 (Fin 20) else f1);
          f3 = (if \<not> includes_str content ''@'' then jsub f2 (Fin 10) else f2);
          f4 = (if \<not> test_year content then jsub f3 (Fin 10) else f3)
      in Math_max f4 (Fin 0))"

definition breakdown_of :: "string \<Rightarrow> ScoreBreakdown" where
  "breakdown_of content =
     \<lparr> formatting = Math_round (formattingScore content),
       keywords = Math_round (keywordScore content),
       grammar = Math_round (grammarScore content),
       readability = Math_round (readabilityScore content) \<rparr>"

definition overall_of :: "ScoreBreakdown \<Rightarrow> jsnum" where
  "overall_of b =
     Math_round (jdiv (jadd (jadd (jadd (formatting b) (keywords b)) (grammar b))
                            (readability b))
                      (Fin 4))"

definition suggest_keywords :: string where
  "suggest_keywords = ''Include more relevant industry keywords and technical skills''"

definition suggest_grammar :: string where
  "suggest_grammar = ''Review grammar and punctuation throughout the document''"

definition suggest_readability :: string where
  "suggest_readability = ''Simplify sentence structure and reduce complex terminology''"

definition suggest_formatting :: string where
  "suggest_formatting =
     ''Ensure proper formatting with consistent structure and contact information''"

definition suggest_skills :: string where
  "suggest_skills = ''Add more specific technical skills and industry-relevant terms''"

definition suggestions_of :: "ScoreBreakdown \<Rightarrow> string list \<Rightarrow> string list" where
  "suggestions_of b matched =
     (let s0 = [];
          s1 = (if jlt (keywords b) (Fin 60) then s0 @ [suggest_keywords] else s0);
          s2 = (if jlt (grammar b) (Fin 80) then s1 @ [suggest_grammar] else s1);
          s3 = (if jlt (readability b) (Fin 70) then s2 @ [suggest_readability] else s2);
          s4 = (if jlt (formatting b) (Fin 80) then s3 @ [suggest_formatting] else s3);
          s5 = (if length matched < 5 then s4 @ [suggest_skills] else s4)
      in s5)"

text \<open>
  \<open>analyzeResume\<close>. No operation of its body can throw on a string, so the result is
  a plain value. The body reads its argument and the constant keyword table, pushes to
  arrays of its own only, and its regular expressions carry no \<open>g\<close> or \<open>y\<close> flag, so the
  result is a function of the text.
\<close>

definition analyzeResume :: "string \<Rightarrow> ResumeAnalysis" where
  "analyzeResume content =
     (let b = breakdown_of content
      in \<lparr> overall = overall_of b,
           breakdown = b,
           suggestions = suggestions_of b (matched_of content),
           matchedKeywords = matched_of content,
           grammarIssues = issues_of content,
           readabilityMetrics =
             \<lparr> sentences = num (length (sentences_of content)),
               avgWordsPerSentence =
                 jdiv (Math_round (jmul (avgWords content) (Fin 10))) (Fin 10),
               complexWords = num (complex_of content) \<rparr> \<rparr>)"

text \<open>
  The effect of the component that calls \<open>analyzeResume\<close>: when the timer fires, the
  analysis of a text with a character left after \<open>trim\<close> is stored; for any other text
  the stored analysis is cleared and \<open>analyzeResume\<close> is not called.
\<close>

definition stored_analysis :: "string \<Rightarrow> ResumeAnalysis option" where
  "stored_analysis resumeContent =
     (if trim resumeContent \<noteq> [] then Some (analyzeResume resumeContent) else None)"

section \<open>Texts that differ only in casing\<close>



section \<open>Keyword analysis of a text with a dotless or dotted i\<close>












section \<open>Properties of the rounding\<close>

lemma bitlen_le: "n < 2 ^ m \<Longrightarrow> bitlen n \<le> m"
proof (induction m arbitrary: n)
  case 0
  then show ?case by (simp add: bitlen.simps)
next
  case (Suc m)
  show ?case
  proof (cases "n = 0")
    case True
    then show ?thesis by (simp add: bitlen.simps)
  next
    case False
    from Suc.prems have "n div 2 < 2 ^ m" by simp
    then have "bitlen (n div 2) \<le> m" by (rule Suc.IH)
    with False show ?thesis by (subst bitlen.simps) simp
  qed
qed

lemma pow2_pos: "0 < pow2 k"
  by (simp add: pow2_def)

lemma pow2_nonpos: "q \<le> 0 \<Longrightarrow> pow2 q = 1 / 2 ^ nat (- q)"
  by (simp add: pow2_def)

lemma round_half_even_of_int: "round_half_even (of_int m) = m"
  by (simp add: round_half_even_def)

lemma round_half_even_nonneg: "0 \<le> x \<Longrightarrow> 0 \<le> round_half_even x"
  by (simp add: round_half_even_def Let_def)

lemma round_half_even_le:
  assumes "x \<le> of_int K"
  shows "round_half_even x \<le> K"
proof -
  have f: "\<lfloor>x\<rfloor> \<le> K" using assms by (simp add: floor_le_iff) 
  show ?thesis
  proof (cases "x = of_int \<lfloor>x\<rfloor>")
    case True
    then have "x - of_int \<lfloor>x\<rfloor> < 1 / 2" by simp
    then show ?thesis using f by (simp add: round_half_even_def Let_def)
  next
    case False
    then have "of_int \<lfloor>x\<rfloor> < x" using of_int_floor_le [of x] by (auto simp: less_le)
    with assms have "of_int \<lfloor>x\<rfloor> < (of_int K :: rat)" by simp
    then have "\<lfloor>x\<rfloor> < K" by simp
    then show ?thesis by (simp add: round_half_even_def Let_def)
  qed
qed

lemma round_half_even_nonpos: "x \<le> 0 \<Longrightarrow> round_half_even x \<le> 0"
  using round_half_even_le [of x 0] by simp

lemma ilog2_0: "ilog2 0 = 0"
  by (simp add: ilog2_def bitlen.simps)

lemma ilog2_le:
  assumes "x \<le> 2 ^ n"
  shows "ilog2 x \<le> int n"
proof (cases "1 \<le> x")
  case True
  have "\<lfloor>x\<rfloor> \<le> 2 ^ n" using assms by (simp add: floor_le_iff) 
  then have "nat \<lfloor>x\<rfloor> \<le> 2 ^ n" by (simp add: nat_le_iff)
  also have "(2::nat) ^ n < 2 ^ Suc n" by simp
  finally have "nat \<lfloor>x\<rfloor> < 2 ^ Suc n" .
  then have "bitlen (nat \<lfloor>x\<rfloor>) \<le> Suc n" by (rule bitlen_le)
  with True show ?thesis by (simp add: ilog2_def)
next
  case False
  then show ?thesis by (simp add: ilog2_def)
qed

lemma fl_not_NaN: "fl x \<noteq> NaN"
  by (simp add: fl_def Let_def)

lemma fl_nonneg:
  assumes "0 \<le> x"
  shows "fl x = PInf \<or> (\<exists>y. 0 \<le> y \<and> fl x = Fin y)"
proof (cases "x = 0")
  case True
  then show ?thesis by (simp add: fl_def)
next
  case False
  define q where "q = max (ilog2 \<bar>x\<bar> - 52) (- 1074)"
  define y where "y = of_int (round_half_even (x / pow2 q)) * pow2 q"
  have "0 \<le> x / pow2 q" using assms pow2_pos [of q] by simp
  then have "0 \<le> round_half_even (x / pow2 q)" by (rule round_half_even_nonneg)
  then have y0: "0 \<le> y" using pow2_pos [of q] by (simp add: y_def)
  have "fl x = (if 1024 \<le> ilog2 \<bar>y\<bar> then (if 0 < y then PInf else NInf) else Fin y)"
    using False by (simp add: fl_def Let_def q_def y_def)
  moreover have "1024 \<le> ilog2 \<bar>y\<bar> \<Longrightarrow> 0 < y"
    using y0 ilog2_0 by (cases "y = 0") auto
  ultimately show ?thesis using y0 by auto
qed

lemma fl_nonpos:
  assumes "x \<le> 0"
  shows "fl x = NInf \<or> (\<exists>y. y \<le> 0 \<and> fl x = Fin y)"
proof (cases "x = 0")
  case True
  then show ?thesis by (simp add: fl_def)
next
  case False
  define q where "q = max (ilog2 \<bar>x\<bar> - 52) (- 1074)"
  define y where "y = of_int (round_half_even (x / pow2 q)) * pow2 q"
  have "x / pow2 q \<le> 0" using assms pow2_pos [of q] by (simp add: divide_le_0_iff)
  then have "round_half_even (x / pow2 q) \<le> 0" by (rule round_half_even_nonpos)
  then have y0: "y \<le> 0" using pow2_pos [of q] by (simp add: y_def mult_le_0_iff)
  have "fl x = (if 1024 \<le> ilog2 \<bar>y\<bar> then (if 0 < y then PInf else NInf) else Fin y)"
    using False by (simp add: fl_def Let_def q_def y_def)
  then show ?thesis using y0 by auto
qed

lemma fl_le_pow2:
  assumes "0 \<le> x" and "x \<le> 2 ^ n" and "n \<le> 1023"
  shows "\<exists>y. fl x = Fin y \<and> 0 \<le> y \<and> y \<le> 2 ^ n"
proof (cases "x = 0")
  case True
  then show ?thesis by (simp add: fl_def)
next
  case False
  define q where "q = max (ilog2 \<bar>x\<bar> - 52) (- 1074)"
  define y where "y = of_int (round_half_even (x / pow2 q)) * pow2 q"
  have "ilog2 \<bar>x\<bar> \<le> int n" using assms by (simp add: ilog2_le)
  then have qn: "q \<le> int n" by (simp add: q_def)
  have "0 \<le> x / pow2 q" using assms pow2_pos [of q] by simp
  then have "0 \<le> round_half_even (x / pow2 q)" by (rule round_half_even_nonneg)
  then have y0: "0 \<le> y" using pow2_pos [of q] by (simp add: y_def)
  have ex: "\<exists>K::int. 2 ^ n = of_int K * pow2 q"
  proof (cases "0 \<le> q")
    case True
    with qn have "nat q \<le> n" by simp
    then have "(2::rat) ^ n = 2 ^ (n - nat q) * 2 ^ nat q"
      by (simp flip: power_add)
    then have "(2::rat) ^ n = of_int (2 ^ (n - nat q)) * pow2 q"
      using True by (simp add: pow2_def)
    then show ?thesis by blast
  next
    case False
    then have "(2::rat) ^ n = of_int (2 ^ (n + nat (- q))) * pow2 q"
      by (simp add: pow2_def power_add)
    then show ?thesis by blast
  qed
  then obtain K :: int where K: "2 ^ n = of_int K * pow2 q" by blast
  have "x / pow2 q \<le> of_int K"
    using assms(2) K pow2_pos [of q] by (simp add: pos_divide_le_eq)
  then have "round_half_even (x / pow2 q) \<le> K" by (rule round_half_even_le)
  then have "of_int (round_half_even (x / pow2 q)) * pow2 q \<le> of_int K * pow2 q"
    using pow2_pos [of q] by simp
  then have yn: "y \<le> 2 ^ n" using K by (simp add: y_def)
  then have "ilog2 \<bar>y\<bar> \<le> int n" using y0 by (simp add: ilog2_le)
  then have "\<not> 1024 \<le> ilog2 \<bar>y\<bar>" using assms(3) by simp
  moreover have "fl x = (if 1024 \<le> ilog2 \<bar>y\<bar> then (if 0 < y then PInf else NInf) else Fin y)"
    using False by (simp add: fl_def Let_def q_def y_def)
  ultimately show ?thesis using y0 yn by simp
qed

lemma fl_of_int:
  assumes "\<bar>k\<bar> < 2 ^ 53"
  shows "fl (of_int k) = Fin (of_int k)"
proof (cases "k = 0")
  case True
  then show ?thesis by (simp add: fl_def)
next
  case False
  define q where "q = max (ilog2 \<bar>rat_of_int k\<bar> - 52) (- 1074)"
  define j where "j = nat (- q)"
  have "nat \<bar>k\<bar> < 2 ^ 53" using assms by (simp add: nat_less_iff)
  then have "bitlen (nat \<bar>k\<bar>) \<le> 53" by (rule bitlen_le)
  moreover have "(1::rat) \<le> \<bar>of_int k\<bar>"
    using False by (simp flip: of_int_abs)
  ultimately have e: "ilog2 \<bar>rat_of_int k\<bar> \<le> 52"
    by (simp add: ilog2_def flip: of_int_abs)
  then have "q \<le> 0" by (simp add: q_def)
  then have p: "pow2 q = 1 / 2 ^ j" unfolding j_def by (rule pow2_nonpos)
  have "rat_of_int k / pow2 q = of_int (k * 2 ^ j)" by (simp add: p)
  then have "round_half_even (rat_of_int k / pow2 q) = k * 2 ^ j"
    by (simp only: round_half_even_of_int)
  then have y: "of_int (round_half_even (rat_of_int k / pow2 q)) * pow2 q = rat_of_int k"
    by (simp add: p)
  show ?thesis
    using False e by (simp add: fl_def Let_def y flip: q_def)
qed


lemma fl_0: "fl 0 = Fin 0"
  by (simp add: fl_def)

lemma fl_numeral: "numeral w < (2::int) ^ 53 \<Longrightarrow> fl (numeral w) = Fin (numeral w)"
  using fl_of_int [of "numeral w"] by simp

lemma fl_nat: "n < 2 ^ 53 \<Longrightarrow> fl (of_nat n) = Fin (of_nat n)"
  using fl_of_int [of "int n"] by (simp add: nat_less_iff flip: of_nat_power) 

lemma Math_round_int: "Math_round (Fin (of_int k)) = Fin (of_int k)"
proof -
  have "\<lfloor>rat_of_int k + 1 / 2\<rfloor> = k" by (rule floor_unique) simp_all
  then show ?thesis by simp
qed

lemma Math_round_numeral: "Math_round (Fin (numeral w)) = Fin (numeral w)"
  using Math_round_int [of "numeral w"] by simp

lemma analyze_breakdown: "breakdown (analyzeResume content) = breakdown_of content"
  by (simp add: analyzeResume_def Let_def)

lemma analyze_overall: "overall (analyzeResume content) = overall_of (breakdown_of content)"
  by (simp add: analyzeResume_def Let_def)

lemma analyze_suggestions:
  "suggestions (analyzeResume content) = suggestions_of (breakdown_of content) (matched_of content)"
  by (simp add: analyzeResume_def Let_def)

lemma analyze_matched: "matchedKeywords (analyzeResume content) = matched_of content"
  by (simp add: analyzeResume_def Let_def)

lemma analyze_issues: "grammarIssues (analyzeResume content) = issues_of content"
  by (simp add: analyzeResume_def Let_def)

lemma analyze_sentences:
  "sentences (readabilityMetrics (analyzeResume content)) = num (length (sentences_of content))"
  by (simp add: analyzeResume_def Let_def)

lemma analyze_avg:
  "avgWordsPerSentence (readabilityMetrics (analyzeResume content)) =
     jdiv (Math_round (jmul (avgWords content) (Fin 10))) (Fin 10)"
  by (simp add: analyzeResume_def Let_def)

lemma analyze_complex:
  "complexWords (readabilityMetrics (analyzeResume content)) = num (complex_of content)"
  by (simp add: analyzeResume_def Let_def)

lemma length_issues_le: "length (issues_of content) \<le> 3"
  by (simp add: issues_of_def Let_def)

lemma grammarScore_eq:
  "grammarScore content = Fin (100 - 15 * of_nat (length (issues_of content)))"
proof -
  define n where "n = length (issues_of content)"
  have "n = 0 \<or> n = 1 \<or> n = 2 \<or> n = 3"
    using length_issues_le [of content] unfolding n_def by arith
  then have "Math_max (jsub (Fin 100) (jmul (num n) (Fin 15))) (Fin 0) = Fin (100 - 15 * of_nat n)"
    by (auto simp: num_def fl_numeral fl_0)
  then show ?thesis by (simp add: grammarScore_def n_def)
qed

section \<open>The grammar score\<close>

lemma grammar_examples:
  "issues_of ''Ok.'' = []"
  "issues_of ''Ok'' = [issue_punctuation]"
  "issues_of ''a  b'' = [issue_punctuation, issue_spaces]"
  "issues_of ''a  i b'' = [issue_lowercase_i, issue_punctuation, issue_spaces]"
  by code_simp+

text \<open>
  C10. The grammar sub-score is one of 100, 85, 70 and 55: there are at most three
  grammar issues, each takes 15 points from 100, so the score is never below 55 and the
  floor at 0 is never reached. Each of the four values is the score of some text.
\<close>

theorem grammar_score_values:
  "length (grammarIssues (analyzeResume content)) \<le> 3
   \<and> grammar (breakdown (analyzeResume content))
       = Fin (100 - 15 * of_nat (length (grammarIssues (analyzeResume content))))
   \<and> grammar (breakdown (analyzeResume content)) \<in> {Fin 100, Fin 85, Fin 70, Fin 55}
   \<and> grammar (breakdown (analyzeResume ''Ok.'')) = Fin 100
   \<and> grammar (breakdown (analyzeResume ''Ok'')) = Fin 85
   \<and> grammar (breakdown (analyzeResume ''a  b'')) = Fin 70
   \<and> grammar (breakdown (analyzeResume ''a  i b'')) = Fin 55"
proof -
  define n where "n = length (issues_of content)"
  have n: "n = 0 \<or> n = 1 \<or> n = 2 \<or> n = 3"
    using length_issues_le [of content] unfolding n_def by arith
  have a: "length (grammarIssues (analyzeResume content)) = n"
    by (simp add: analyze_issues n_def)
  have "grammar (breakdown (analyzeResume content)) = Math_round (Fin (100 - 15 * of_nat n))"
    by (simp add: analyze_breakdown breakdown_of_def grammarScore_eq n_def
        del: Math_round.simps)
  also have "\<dots> = Fin (100 - 15 * of_nat n)"
    using n by (auto simp: Math_round_numeral simp del: Math_round.simps)
  finally have b: "grammar (breakdown (analyzeResume content)) = Fin (100 - 15 * of_nat n)" .
  have c: "Fin (100 - 15 * of_nat n) \<in> {Fin 100, Fin 85, Fin 70, Fin 55}"
    using n by auto
  have d: "n \<le> 3" using n by arith
  have e: "grammar (breakdown (analyzeResume ''Ok.'')) = Fin 100"
    "grammar (breakdown (analyzeResume ''Ok'')) = Fin 85"
    "grammar (breakdown (analyzeResume ''a  b'')) = Fin 70"
    "grammar (breakdown (analyzeResume ''a  i b'')) = Fin 55"
    by (simp_all add: analyze_breakdown breakdown_of_def grammarScore_eq grammar_examples
        Math_round_numeral del: Math_round.simps)
  show ?thesis unfolding a b using c d e by blast
qed

theorem grammar_score_values_witness:
  "length (grammarIssues (analyzeResume ''a  i b'')) = 3
   \<and> grammar (breakdown (analyzeResume ''a  i b'')) = Fin 55"
proof -
  have "length (grammarIssues (analyzeResume ''a  i b'')) = 3"
    by (simp add: analyze_issues grammar_examples)
  then show ?thesis
    using grammar_score_values [of "''a  i b''"] by simp
qed

section \<open>Substrings and the year expression\<close>

lemma startsWith_iff: "startsWith s p \<longleftrightarrow> (\<exists>post. s = p @ post)"
  by (induction p arbitrary: s) (auto split: list.splits)

lemma includes_str_iff: "includes_str s p \<longleftrightarrow> (\<exists>pre post. s = pre @ p @ post)"
proof (induction s)
  case Nil
  then show ?case by auto
next
  case (Cons c cs)
  show ?case
  proof
    assume "includes_str (c # cs) p"
    then consider "startsWith (c # cs) p" | "includes_str cs p" by auto
    then show "\<exists>pre post. c # cs = pre @ p @ post"
    proof cases
      case 1
      then obtain post where "c # cs = [] @ p @ post" by (auto simp: startsWith_iff)
      then show ?thesis by blast
    next
      case 2
      then obtain pre post where "cs = pre @ p @ post" using Cons.IH by blast
      then have "c # cs = (c # pre) @ p @ post" by simp
      then show ?thesis by blast
    qed
  next
    assume "\<exists>pre post. c # cs = pre @ p @ post"
    then obtain pre post where e: "c # cs = pre @ p @ post" by blast
    show "includes_str (c # cs) p"
    proof (cases pre)
      case Nil
      with e have "startsWith (c # cs) p" by (auto simp: startsWith_iff)
      then show ?thesis by simp
    next
      case (Cons a pre')
      with e have "cs = pre' @ p @ post" by simp
      then have "includes_str cs p" using Cons.IH by blast
      then show ?thesis by simp
    qed
  qed
qed

lemma includes_str_part:
  assumes "includes_str s (a @ p @ b)"
  shows "includes_str s p"
proof -
  from assms obtain pre post where "s = pre @ (a @ p @ b) @ post"
    by (auto simp: includes_str_iff)
  then have "s = (pre @ a) @ p @ (b @ post)" by simp
  then show ?thesis unfolding includes_str_iff by blast
qed

lemma isDigit_isWordChar: "isDigit c \<Longrightarrow> isWordChar c"
  by (simp add: isDigit_def isWordChar_def Let_def)

lemma year_here_iff:
  "year_here prev s \<longleftrightarrow>
     (\<exists>a b c d post. s = [a, b, c, d] @ post \<and> isDigit a \<and> isDigit b \<and> isDigit c \<and> isDigit d
        \<and> (case prev of None \<Rightarrow> True | Some p \<Rightarrow> \<not> isWordChar p)
        \<and> (case post of [] \<Rightarrow> True | r # _ \<Rightarrow> \<not> isWordChar r))"
  by (auto simp: year_here_def isDigit_isWordChar split: list.splits option.splits)

lemma test_year_from_iff:
  "test_year_from prev s \<longleftrightarrow>
     (\<exists>pre a b c d post. s = pre @ [a, b, c, d] @ post
        \<and> isDigit a \<and> isDigit b \<and> isDigit c \<and> isDigit d
        \<and> (case left_of prev pre of None \<Rightarrow> True | Some p \<Rightarrow> \<not> isWordChar p)
        \<and> (case post of [] \<Rightarrow> True | r # _ \<Rightarrow> \<not> isWordChar r))"
  (is "?L prev s \<longleftrightarrow> ?R prev s")
proof (induction s arbitrary: prev)
  case Nil
  then show ?case by simp
next
  case (Cons x xs)
  show ?case
  proof
    assume "?L prev (x # xs)"
    then consider "year_here prev (x # xs)" | "test_year_from (Some x) xs" by auto
    then show "?R prev (x # xs)"
    proof cases
      case 1
      then obtain a b c d post where "x # xs = [] @ [a, b, c, d] @ post"
        "isDigit a" "isDigit b" "isDigit c" "isDigit d"
        "case left_of prev [] of None \<Rightarrow> True | Some p \<Rightarrow> \<not> isWordChar p"
        "case post of [] \<Rightarrow> True | r # _ \<Rightarrow> \<not> isWordChar r"
        unfolding year_here_iff left_of_def by auto
      then show ?thesis by blast
    next
      case 2
      then obtain pre a b c d post where h: "xs = pre @ [a, b, c, d] @ post"
        "isDigit a" "isDigit b" "isDigit c" "isDigit d"
        "case left_of (Some x) pre of None \<Rightarrow> True | Some p \<Rightarrow> \<not> isWordChar p"
        "case post of [] \<Rightarrow> True | r # _ \<Rightarrow> \<not> isWordChar r"
        using Cons.IH [of "Some x"] by blast
      have "left_of prev (x # pre) = left_of (Some x) pre" by (simp add: left_of_def)
      moreover have "x # xs = (x # pre) @ [a, b, c, d] @ post" using h(1) by simp
      ultimately show ?thesis using h by metis
    qed
  next
    assume "?R prev (x # xs)"
    then obtain pre a b c d post where h: "x # xs = pre @ [a, b, c, d] @ post"
        "isDigit a" "isDigit b" "isDigit c" "isDigit d"
        "case left_of prev pre of None \<Rightarrow> True | Some p \<Rightarrow> \<not> isWordChar p"
        "case post of [] \<Rightarrow> True | r # _ \<Rightarrow> \<not> isWordChar r"
      by blast
    show "?L prev (x # xs)"
    proof (cases pre)
      case Nil
      with h have "year_here prev (x # xs)" unfolding year_here_iff left_of_def by auto
      then show ?thesis by simp
    next
      case (Cons y pre')
      with h(1) have e: "xs = pre' @ [a, b, c, d] @ post" and "y = x" by simp_all
      have "left_of (Some x) pre' = left_of prev pre"
        using Cons \<open>y = x\<close> by (simp add: left_of_def)
      with h e have "?R (Some x) xs" by metis
      then have "test_year_from (Some x) xs" using Cons.IH [of "Some x"] by blast
      then show ?thesis by simp
    qed
  qed
qed

section \<open>The formatting score\<close>

lemma formattingScore_eq:
  "formattingScore content =
     Fin (max 0 (100 - (if length content < 200 then 30 else 0)
                     - (if 5000 < length content then 20 else 0)
                     - (if includes_str content ''@'' then 0 else 10)
                     - (if test_year content then 0 else 10)))"
  by (simp add: formattingScore_def Let_def fl_numeral)

lemma Math_round_formatting:
  "Math_round (formattingScore content) = formattingScore content"
  by (simp add: formattingScore_eq Math_round_numeral del: Math_round.simps)

lemma test_year_iff:
  "test_year content \<longleftrightarrow>
     (\<exists>pre a b c d post. content = pre @ [a, b, c, d] @ post
        \<and> isDigit a \<and> isDigit b \<and> isDigit c \<and> isDigit d
        \<and> (pre = [] \<or> \<not> isWordChar (last pre))
        \<and> (post = [] \<or> \<not> isWordChar (hd post)))"
proof -
  have a: "(case left_of None pre of None \<Rightarrow> True | Some p \<Rightarrow> \<not> isWordChar p)
           \<longleftrightarrow> (pre = [] \<or> \<not> isWordChar (last pre))" for pre
    by (simp add: left_of_def)
  have b: "(case post of [] \<Rightarrow> True | r # _ \<Rightarrow> \<not> isWordChar r)
           \<longleftrightarrow> (post = [] \<or> \<not> isWordChar (hd post))" for post :: string
    by (cases post) simp_all
  show ?thesis unfolding test_year_def test_year_from_iff a b ..
qed

text \<open>
  C6. The formatting sub-score is 100, less 30 when the text is shorter than 200
  characters, less 20 when it is longer than 5000, less 10 when it has no \<open>@\<close>, less 10
  when it has no run of exactly four digits between word boundaries, and not below 0.
  The year expression matches exactly when four digits stand between two positions that
  are each an end of the text or next to a character that is no word character. A text
  longer than 5000 characters that contains \<open>john@example.com\<close> and such a \<open>2023\<close> scores
  80.
\<close>

theorem formatting_score_formula:
  "formatting (breakdown (analyzeResume content)) =
     Fin (max 0 (100 - (if length content < 200 then 30 else 0)
                     - (if 5000 < length content then 20 else 0)
                     - (if includes_str content ''@'' then 0 else 10)
                     - (if test_year content then 0 else 10)))
   \<and> (test_year content \<longleftrightarrow>
        (\<exists>pre a b c d post. content = pre @ [a, b, c, d] @ post
           \<and> isDigit a \<and> isDigit b \<and> isDigit c \<and> isDigit d
           \<and> (pre = [] \<or> \<not> isWordChar (last pre))
           \<and> (post = [] \<or> \<not> isWordChar (hd post))))
   \<and> (5000 < length content \<and> includes_str content ''john@example.com''
        \<and> (\<exists>pre post. content = pre @ ''2023'' @ post
              \<and> (pre = [] \<or> \<not> isWordChar (last pre))
              \<and> (post = [] \<or> \<not> isWordChar (hd post)))
        \<longrightarrow> formatting (breakdown (analyzeResume content)) = Fin 80)"
proof (intro conjI impI)
  have "formatting (breakdown (analyzeResume content)) = Math_round (formattingScore content)"
    by (simp add: analyze_breakdown breakdown_of_def del: Math_round.simps)
  also have "\<dots> = formattingScore content" by (rule Math_round_formatting)
  also have "\<dots> = Fin (max 0 (100 - (if length content < 200 then 30 else 0)
                     - (if 5000 < length content then 20 else 0)
                     - (if includes_str content ''@'' then 0 else 10)
                     - (if test_year content then 0 else 10)))"
    by (rule formattingScore_eq)
  finally show f: "formatting (breakdown (analyzeResume content)) =
     Fin (max 0 (100 - (if length content < 200 then 30 else 0)
                     - (if 5000 < length content then 20 else 0)
                     - (if includes_str content ''@'' then 0 else 10)
                     - (if test_year content then 0 else 10)))" .
  show "test_year content \<longleftrightarrow>
        (\<exists>pre a b c d post. content = pre @ [a, b, c, d] @ post
           \<and> isDigit a \<and> isDigit b \<and> isDigit c \<and> isDigit d
           \<and> (pre = [] \<or> \<not> isWordChar (last pre))
           \<and> (post = [] \<or> \<not> isWordChar (hd post)))"
    by (rule test_year_iff)
  assume h: "5000 < length content \<and> includes_str content ''john@example.com''
        \<and> (\<exists>pre post. content = pre @ ''2023'' @ post
              \<and> (pre = [] \<or> \<not> isWordChar (last pre))
              \<and> (post = [] \<or> \<not> isWordChar (hd post)))"
  then have "includes_str content (''john'' @ ''@'' @ ''example.com'')" by simp
  then have at: "includes_str content ''@''" by (rule includes_str_part)
  from h obtain pre post where "content = pre @ [CHR ''2'', CHR ''0'', CHR ''2'', CHR ''3''] @ post"
    "pre = [] \<or> \<not> isWordChar (last pre)" "post = [] \<or> \<not> isWordChar (hd post)"
    by auto
  moreover have "isDigit CHR ''2''" "isDigit CHR ''0''" "isDigit CHR ''3''"
    by (simp_all add: isDigit_def code_def)
  ultimately have yr: "test_year content" unfolding test_year_iff by blast
  from h have "5000 < length content" by simp
  then show "formatting (breakdown (analyzeResume content)) = Fin 80"
    unfolding f using at yr by simp
qed

theorem formatting_score_formula_witness:
  "formatting (breakdown (analyzeResume
     (''2023 john@example.com '' @ replicate 5000 CHR ''x'' @ ''.''))) = Fin 80"
proof -
  define content where "content = ''2023 john@example.com '' @ replicate 5000 CHR ''x'' @ ''.''"
  have l: "5000 < length content" by (simp add: content_def)
  have "content = ''2023 '' @ ''john@example.com'' @ ('' '' @ replicate 5000 CHR ''x'' @ ''.'')"
    by (simp add: content_def)
  then have i: "includes_str content ''john@example.com''"
    unfolding includes_str_iff by blast
  have "content = [] @ ''2023'' @ ('' john@example.com '' @ replicate 5000 CHR ''x'' @ ''.'')"
    by (simp add: content_def)
  moreover have "\<not> isWordChar (hd ('' john@example.com '' @ replicate 5000 CHR ''x'' @ ''.''))"
    by (simp add: isWordChar_def code_def)
  ultimately have y: "\<exists>pre post. content = pre @ ''2023'' @ post
              \<and> (pre = [] \<or> \<not> isWordChar (last pre))
              \<and> (post = [] \<or> \<not> isWordChar (hd post))"
    by blast
  show ?thesis
    using formatting_score_formula [of content] l i y unfolding content_def by blast
qed

section \<open>Evaluation lemmas\<close>

lemma fl_neg_numeral:
  "numeral w < (2::int) ^ 53 \<Longrightarrow> fl (- numeral w) = Fin (- numeral w)"
  using fl_of_int [of "- numeral w"] by simp

lemma Math_round_0: "Math_round (Fin 0) = Fin 0"
  using Math_round_int [of 0] by simp

lemma length_jobKeywords: "length jobKeywords = 27"
  by (simp add: jobKeywords_def)

lemma breakdown_of_sel:
  "formatting (breakdown_of content) = Math_round (formattingScore content)"
  "keywords (breakdown_of content) = Math_round (keywordScore content)"
  "grammar (breakdown_of content) = Math_round (grammarScore content)"
  "readability (breakdown_of content) = Math_round (readabilityScore content)"
  by (simp_all add: breakdown_of_def del: Math_round.simps)

lemma keywordScore_length:
  "keywordScore content =
     Math_min (jmul (jdiv (num (length (matched_of content))) (Fin 27)) (Fin 100)) (Fin 100)"
  by (simp add: keywordScore_def length_jobKeywords num_def)

section \<open>Suggestions\<close>

lemma suggestions_of_eq:
  "suggestions_of b matched =
     (if jlt (keywords b) (Fin 60) then [suggest_keywords] else [])
     @ (if jlt (grammar b) (Fin 80) then [suggest_grammar] else [])
     @ (if jlt (readability b) (Fin 70) then [suggest_readability] else [])
     @ (if jlt (formatting b) (Fin 80) then [suggest_formatting] else [])
     @ (if length matched < 5 then [suggest_skills] else [])"
  by (simp add: suggestions_of_def Let_def)

lemma suggest_keywords_mem:
  "suggest_keywords \<in> set (suggestions_of b matched) \<longleftrightarrow> jlt (keywords b) (Fin 60)"
  by (simp add: suggestions_of_eq suggest_keywords_def suggest_grammar_def
      suggest_readability_def suggest_formatting_def suggest_skills_def)

lemma suggest_skills_mem:
  "suggest_skills \<in> set (suggestions_of b matched) \<longleftrightarrow> length matched < 5"
  by (simp add: suggestions_of_eq suggest_keywords_def suggest_grammar_def
      suggest_readability_def suggest_formatting_def suggest_skills_def)

text \<open>
  C5. The suggestions are the outcome of five independent conditions, in this order:
  keyword score below 60, grammar score below 80, readability score below 70,
  formatting score below 80, fewer than 5 matched keywords; each adds its suggestion
  when it holds. The first and the last are different conditions and can hold together:
  both hold for \<open>Resume\<close>, and for a text with five matched keywords the first holds
  and the last does not.
\<close>

theorem suggestions_in_fixed_order:
  "suggestions (analyzeResume content) =
     (if jlt (keywords (breakdown (analyzeResume content))) (Fin 60)
      then [suggest_keywords] else [])
     @ (if jlt (grammar (breakdown (analyzeResume content))) (Fin 80)
        then [suggest_grammar] else [])
     @ (if jlt (readability (breakdown (analyzeResume content))) (Fin 70)
        then [suggest_readability] else [])
     @ (if jlt (formatting (breakdown (analyzeResume content))) (Fin 80)
        then [suggest_formatting] else [])
     @ (if length (matchedKeywords (analyzeResume content)) < 5
        then [suggest_skills] else [])
   \<and> suggest_keywords \<in> set (suggestions (analyzeResume ''Resume''))
   \<and> suggest_skills \<in> set (suggestions (analyzeResume ''Resume''))
   \<and> suggest_keywords \<in> set (suggestions (analyzeResume ''react aws team agile scrum''))
   \<and> suggest_skills \<notin> set (suggestions (analyzeResume ''react aws team agile scrum''))"
proof -
  have a: "suggestions (analyzeResume content) =
     (if jlt (keywords (breakdown (analyzeResume content))) (Fin 60)
      then [suggest_keywords] else [])
     @ (if jlt (grammar (breakdown (analyzeResume content))) (Fin 80)
        then [suggest_grammar] else [])
     @ (if jlt (readability (breakdown (analyzeResume content))) (Fin 70)
        then [suggest_readability] else [])
     @ (if jlt (formatting (breakdown (analyzeResume content))) (Fin 80)
        then [suggest_formatting] else [])
     @ (if length (matchedKeywords (analyzeResume content)) < 5
        then [suggest_skills] else [])"
    unfolding analyze_suggestions analyze_breakdown analyze_matched
    by (rule suggestions_of_eq)
  have m0: "matched_of ''Resume'' = []" by code_simp
  have k0: "keywords (breakdown_of ''Resume'') = Fin 0"
    by (simp add: breakdown_of_sel keywordScore_length m0 num_def fl_0 Math_round_0
        del: Math_round.simps)
  have m5: "matched_of ''react aws team agile scrum''
              = [''react'', ''aws'', ''team'', ''agile'', ''scrum'']"
    by code_simp
  have "Math_round (Math_min (jmul (jdiv (Fin 5) (Fin 27)) (Fin 100)) (Fin 100)) = Fin 19"
    by code_simp
  then have k5: "keywords (breakdown_of ''react aws team agile scrum'') = Fin 19"
    by (simp add: breakdown_of_sel keywordScore_length m5 num_def del: Math_round.simps jdiv.simps jmul.simps)
  have b: "suggest_keywords \<in> set (suggestions (analyzeResume ''Resume''))"
    by (simp add: analyze_suggestions suggest_keywords_mem k0)
  have c: "suggest_skills \<in> set (suggestions (analyzeResume ''Resume''))"
    by (simp add: analyze_suggestions suggest_skills_mem m0)
  have d: "suggest_keywords \<in> set (suggestions (analyzeResume ''react aws team agile scrum''))"
    by (simp add: analyze_suggestions suggest_keywords_mem k5)
  have e: "suggest_skills \<notin> set (suggestions (analyzeResume ''react aws team agile scrum''))"
    by (simp add: analyze_suggestions suggest_skills_mem m5)
  show ?thesis using a b c d e by blast
qed

section \<open>The check for a lowercase pronoun\<close>

lemma issue_lowercase_i_mem:
  "issue_lowercase_i \<in> set (issues_of content) \<longleftrightarrow> includes_str (toLowerCase content) '' i ''"
  by (simp add: issues_of_def Let_def issue_lowercase_i_def issue_punctuation_def
      issue_spaces_def)

text \<open>
  C3. The issue about a lowercase \<open>i\<close> is reported exactly when \<open>" i "\<close> occurs in the
  lower-cased text. So a text with a capitalised \<open>" I "\<close> and no lowercase \<open>" i "\<close>, such as
  \<open>Then I left.\<close>, is reported too and loses 15 points.
\<close>

theorem lowercase_i_checked_on_lowered_text:
  "(issue_lowercase_i \<in> set (grammarIssues (analyzeResume content))
      \<longleftrightarrow> includes_str (toLowerCase content) '' i '')
   \<and> \<not> includes_str ''Then I left.'' '' i ''
   \<and> includes_str ''Then I left.'' '' I ''
   \<and> grammarIssues (analyzeResume ''Then I left.'') = [issue_lowercase_i]
   \<and> grammar (breakdown (analyzeResume ''Then I left.'')) = Fin 85"
proof -
  have a: "\<not> includes_str ''Then I left.'' '' i ''" by code_simp
  have b: "includes_str ''Then I left.'' '' I ''" by code_simp
  have c: "issues_of ''Then I left.'' = [issue_lowercase_i]" by code_simp
  have d: "grammar (breakdown (analyzeResume ''Then I left.'')) = Fin 85"
    by (simp add: analyze_breakdown breakdown_of_sel grammarScore_eq c Math_round_numeral
        del: Math_round.simps)
  show ?thesis using a b c d by (simp add: analyze_issues issue_lowercase_i_mem)
qed

section \<open>Sentences and words\<close>

lemma trim_Nil_iff: "trim s = [] \<longleftrightarrow> (\<forall>c\<in>set s. isSpace c)"
proof
  assume "trim s = []"
  then have a: "\<forall>x\<in>set (dropWhile isSpace s). isSpace x"
    by (simp add: trim_def dropWhile_eq_Nil_conv)
  show "\<forall>c\<in>set s. isSpace c"
  proof (rule ccontr)
    assume "\<not> (\<forall>c\<in>set s. isSpace c)"
    then have n: "dropWhile isSpace s \<noteq> []" by (simp add: dropWhile_eq_Nil_conv)
    then have "\<not> isSpace (hd (dropWhile isSpace s))" by (rule hd_dropWhile)
    moreover have "hd (dropWhile isSpace s) \<in> set (dropWhile isSpace s)" using n by simp
    ultimately show False using a by blast
  qed
next
  assume "\<forall>c\<in>set s. isSpace c"
  then show "trim s = []" by (auto simp: trim_def dropWhile_eq_Nil_conv dest: set_dropWhileD)
qed

lemma set_split_go:
  assumes "inrun \<longrightarrow> frag = []"
  shows "(\<Union>f\<in>set (split_go C frag inrun s). set f) = set frag \<union> {c \<in> set s. \<not> C c}"
  using assms
proof (induction s arbitrary: frag inrun)
  case Nil
  then show ?case by simp
next
  case (Cons c cs)
  have t: "(\<Union>f\<in>set (split_go C [] True cs). set f) = {c \<in> set cs. \<not> C c}"
    using Cons.IH [of True "[]"] by simp
  have f: "(\<Union>f\<in>set (split_go C (c # frag) False cs). set f)
             = set (c # frag) \<union> {c \<in> set cs. \<not> C c}"
    using Cons.IH [of False "c # frag"] by simp
  show ?case
  proof (cases "C c")
    case True
    show ?thesis
    proof (cases inrun)
      case True
      with Cons.prems have "frag = []" by simp
      with \<open>C c\<close> True t show ?thesis by auto
    next
      case False
      with \<open>C c\<close> t show ?thesis by auto
    qed
  next
    case False
    with f show ?thesis by auto
  qed
qed

lemma set_split: "(\<Union>f\<in>set (split C s). set f) = {c \<in> set s. \<not> C c}"
  by (simp add: split_def set_split_go)

lemma words_of_Nil_iff: "words_of content = [] \<longleftrightarrow> (\<forall>c\<in>set content. isSpace c)"
proof -
  have "words_of content = [] \<longleftrightarrow> (\<forall>f\<in>set (split isSpace content). set f = {})"
    by (auto simp: words_of_def filter_empty_conv)
  also have "\<dots> \<longleftrightarrow> (\<Union>f\<in>set (split isSpace content). set f) = {}" by simp
  also have "\<dots> \<longleftrightarrow> (\<forall>c\<in>set content. isSpace c)" unfolding set_split by blast
  finally show ?thesis .
qed

lemma words_of_Nil_trim: "words_of content = [] \<longleftrightarrow> trim content = []"
  by (simp add: words_of_Nil_iff trim_Nil_iff)

lemma sentences_of_Nil_iff:
  "sentences_of content = [] \<longleftrightarrow> (\<forall>c\<in>set content. isTerminator c \<or> isSpace c)"
proof -
  have "sentences_of content = []
        \<longleftrightarrow> (\<forall>f\<in>set (split isTerminator content). \<forall>c\<in>set f. isSpace c)"
    by (simp add: sentences_of_def filter_empty_conv trim_Nil_iff)
  also have "\<dots> \<longleftrightarrow> (\<forall>c\<in>(\<Union>f\<in>set (split isTerminator content). set f). isSpace c)"
    by blast
  also have "\<dots> \<longleftrightarrow> (\<forall>c\<in>set content. isTerminator c \<or> isSpace c)"
    unfolding set_split by blast
  finally show ?thesis .
qed

lemma avgWords_no_sentence:
  "sentences_of content = [] \<Longrightarrow>
     avgWords content = (if words_of content = [] then NaN else PInf)"
  by (simp add: avgWords_def num_def)

lemma avg_metric_no_sentence:
  assumes "sentences_of content = []"
  shows "jdiv (Math_round (jmul (avgWords content) (Fin 10))) (Fin 10)
           = (if words_of content = [] then NaN else PInf)"
  by (simp add: avgWords_no_sentence [OF assms])

lemma fl_1: "fl 1 = Fin 1"
  using fl_of_int [of 1] by simp

lemma Math_round_1: "Math_round (Fin 1) = Fin 1"
  using Math_round_int [of 1] by simp

lemma Resume_words: "words_of ''Resume'' = [''Resume'']"
  by code_simp

lemma Resume_sentences: "sentences_of ''Resume'' = [''Resume'']"
  by code_simp

lemma dots_words: "words_of ''...'' = [''...'']"
  by code_simp

lemma dots_sentences: "sentences_of ''...'' = []"
  by code_simp

lemma empty_words: "words_of '''' = []"
  by code_simp

lemma empty_sentences: "sentences_of '''' = []"
  by code_simp

lemma Resume_avg:
  "jdiv (Math_round (jmul (avgWords ''Resume'') (Fin 10))) (Fin 10) = Fin 1"
  by (simp add: avgWords_def Resume_words Resume_sentences num_def fl_1 fl_numeral
      Math_round_numeral del: Math_round.simps)

text \<open>
  C4, as claimed, fails: \<open>Resume\<close> has no terminator, so \<open>split\<close> returns it whole and
  it counts as one sentence; and where no sentence is found the average is not replaced
  by a fallback: it is NaN for the empty text and Infinity for \<open>...\<close>.
\<close>

theorem zero_sentences_counterexample:
  "sentences (readabilityMetrics (analyzeResume ''Resume'')) = Fin 1
   \<and> sentences (readabilityMetrics (analyzeResume '''')) = Fin 0
   \<and> avgWordsPerSentence (readabilityMetrics (analyzeResume '''')) = NaN
   \<and> sentences (readabilityMetrics (analyzeResume ''...'')) = Fin 0
   \<and> avgWordsPerSentence (readabilityMetrics (analyzeResume ''...'')) = PInf"
  by (simp add: analyze_sentences analyze_avg Resume_sentences num_def
      avg_metric_no_sentence empty_sentences empty_words dots_sentences dots_words
      del: Math_round.simps jdiv.simps jmul.simps)

text \<open>
  C4, amended. A text has no detectable sentence exactly when it consists of \<open>.\<close>, \<open>!\<close>,
  \<open>?\<close> and white space only. For such a text \<open>analyzeResume\<close> returns a sentence count of
  0 and an average of words per sentence that is NaN when the text has no word and
  Infinity otherwise. The single word \<open>Resume\<close> is one sentence, with average 1.
\<close>

theorem zero_sentences_metrics:
  "(sentences_of content = [] \<longleftrightarrow> (\<forall>c\<in>set content. isTerminator c \<or> isSpace c))
   \<and> (sentences_of content = [] \<longrightarrow>
        sentences (readabilityMetrics (analyzeResume content)) = Fin 0
        \<and> avgWordsPerSentence (readabilityMetrics (analyzeResume content))
             = (if words_of content = [] then NaN else PInf))
   \<and> sentences (readabilityMetrics (analyzeResume ''Resume'')) = Fin 1
   \<and> avgWordsPerSentence (readabilityMetrics (analyzeResume ''Resume'')) = Fin 1"
proof (intro conjI impI)
  show "sentences_of content = [] \<longleftrightarrow> (\<forall>c\<in>set content. isTerminator c \<or> isSpace c)"
    by (rule sentences_of_Nil_iff)
  show "sentences (readabilityMetrics (analyzeResume ''Resume'')) = Fin 1"
    by (simp add: analyze_sentences Resume_sentences num_def)
  show "avgWordsPerSentence (readabilityMetrics (analyzeResume ''Resume'')) = Fin 1"
    unfolding analyze_avg by (rule Resume_avg)
next
  assume h: "sentences_of content = []"
  then show "sentences (readabilityMetrics (analyzeResume content)) = Fin 0"
    by (simp add: analyze_sentences num_def)
  show "avgWordsPerSentence (readabilityMetrics (analyzeResume content))
             = (if words_of content = [] then NaN else PInf)"
    unfolding analyze_avg by (rule avg_metric_no_sentence [OF h])
qed

theorem zero_sentences_metrics_witness:
  "sentences_of ''...'' = []
   \<and> sentences (readabilityMetrics (analyzeResume ''...'')) = Fin 0
   \<and> avgWordsPerSentence (readabilityMetrics (analyzeResume ''...'')) = PInf"
  using zero_sentences_metrics [of "''...''"] dots_sentences dots_words by simp

section \<open>The scenario of a short text\<close>

lemma scenario_B_matched:
  "matched_of ''I am a software engineer with experience in react and python.''
     = [''react'', ''python'', ''experience'']"
  by code_simp

lemma scenario_B_issues:
  "issues_of ''I am a software engineer with experience in react and python.'' = []"
  by code_simp

lemma scenario_B_at:
  "\<not> includes_str ''I am a software engineer with experience in react and python.'' ''@''"
  by code_simp

lemma scenario_B_year:
  "\<not> test_year ''I am a software engineer with experience in react and python.''"
  by code_simp

text \<open>
  C8. For \<open>I am a software engineer with experience in react and python.\<close> the grammar
  score is 100 with no issue, the formatting score is 50, and the matched keywords are
  \<open>react\<close>, \<open>python\<close> and \<open>experience\<close>.
\<close>

theorem scenario_B:
  "grammar (breakdown (analyzeResume
      ''I am a software engineer with experience in react and python.'')) = Fin 100
   \<and> grammarIssues (analyzeResume
      ''I am a software engineer with experience in react and python.'') = []
   \<and> formatting (breakdown (analyzeResume
      ''I am a software engineer with experience in react and python.'')) = Fin 50
   \<and> matchedKeywords (analyzeResume
      ''I am a software engineer with experience in react and python.'')
       = [''react'', ''python'', ''experience'']"
proof -
  define S where "S = ''I am a software engineer with experience in react and python.''"
  have l: "length S < 200" by (simp add: S_def)
  have g: "grammar (breakdown (analyzeResume S)) = Fin 100"
    by (simp add: analyze_breakdown breakdown_of_sel grammarScore_eq S_def
        scenario_B_issues Math_round_numeral del: Math_round.simps)
  have "formattingScore S = Fin 50"
    using l scenario_B_at scenario_B_year by (simp add: formattingScore_eq S_def)
  then have f: "formatting (breakdown (analyzeResume S)) = Fin 50"
    by (simp add: analyze_breakdown breakdown_of_sel Math_round_numeral
        del: Math_round.simps)
  show ?thesis
    using g f scenario_B_issues scenario_B_matched
    by (simp add: analyze_issues analyze_matched S_def)
qed

section \<open>Ranges of the sub-scores\<close>

lemma jsub_NaN_right: "jsub a NaN = NaN"
  by (cases a) simp_all

lemma Math_round_le:
  assumes "v \<le> 100"
  shows "\<exists>R. R \<le> 100 \<and> Math_round (Fin v) = Fin (of_int R)"
proof -
  have "v + 1 / 2 < of_int 100 + 1" using assms by simp
  then have "\<lfloor>v + 1 / 2\<rfloor> < 100 + 1" by (simp only: floor_less_iff) 
  then have "\<lfloor>v + 1 / 2\<rfloor> \<le> 100" by simp
  then show ?thesis by auto
qed

lemma Math_round_range:
  assumes "0 \<le> v" and "v \<le> 100"
  shows "\<exists>K. 0 \<le> K \<and> K \<le> 100 \<and> Math_round (Fin v) = Fin (of_int K)"
proof -
  have "v + 1 / 2 < of_int 100 + 1" using assms by simp
  then have "\<lfloor>v + 1 / 2\<rfloor> < 100 + 1" by (simp only: floor_less_iff) 
  then have "\<lfloor>v + 1 / 2\<rfloor> \<le> 100" by simp
  moreover have "0 \<le> \<lfloor>v + 1 / 2\<rfloor>" using assms by simp
  ultimately show ?thesis by auto
qed

lemma formatting_range:
  "\<exists>F. 0 \<le> F \<and> F \<le> 100 \<and> Math_round (formattingScore content) = Fin (of_int F)"
proof -
  define F :: int where
    "F = max 0 (100 - (if length content < 200 then 30 else 0)
                     - (if 5000 < length content then 20 else 0)
                     - (if includes_str content ''@'' then 0 else 10)
                     - (if test_year content then 0 else 10))"
  have "formattingScore content = Fin (of_int F)"
    by (simp add: formattingScore_eq F_def)
  then have "Math_round (formattingScore content) = Fin (of_int F)"
    by (simp only: Math_round_int)
  moreover have "0 \<le> F" "F \<le> 100" by (simp_all add: F_def)
  ultimately show ?thesis by blast
qed

lemma grammar_range:
  "\<exists>G. 0 \<le> G \<and> G \<le> 100 \<and> Math_round (grammarScore content) = Fin (of_int G)"
proof -
  define G :: int where "G = 100 - 15 * int (length (issues_of content))"
  have "grammarScore content = Fin (of_int G)"
    by (simp add: grammarScore_eq G_def)
  then have "Math_round (grammarScore content) = Fin (of_int G)"
    by (simp only: Math_round_int)
  moreover have "0 \<le> G" "G \<le> 100"
    using length_issues_le [of content] by (simp_all add: G_def)
  ultimately show ?thesis by blast
qed

lemma jdiv_nat_nonneg:
  assumes "0 < w"
  shows "jdiv (num c) (num w) = PInf \<or> (\<exists>a. 0 \<le> a \<and> jdiv (num c) (num w) = Fin a)"
proof -
  have "(0::rat) \<le> of_nat c / of_nat w" by simp
  from fl_nonneg [OF this] show ?thesis using assms by (simp add: num_def)
qed

lemma jmul_pos_nonneg:
  assumes "X = PInf \<or> (\<exists>a. 0 \<le> a \<and> X = Fin a)" and "0 < k"
  shows "jmul X (Fin k) = PInf \<or> (\<exists>b. 0 \<le> b \<and> jmul X (Fin k) = Fin b)"
proof -
  from assms(1) consider "X = PInf" | a where "0 \<le> a" "X = Fin a" by blast
  then show ?thesis
  proof cases
    case 1
    then show ?thesis using assms(2) by simp
  next
    case 2
    then have "0 \<le> a * k" using assms(2) by simp
    from fl_nonneg [OF this] show ?thesis using 2 by simp
  qed
qed

lemma keywords_range:
  "\<exists>K. 0 \<le> K \<and> K \<le> 100 \<and> Math_round (keywordScore content) = Fin (of_int K)"
proof -
  define X where "X = jmul (jdiv (num (length (matched_of content))) (num 27)) (Fin 100)"
  have "X = PInf \<or> (\<exists>b. 0 \<le> b \<and> X = Fin b)"
    unfolding X_def by (rule jmul_pos_nonneg [OF jdiv_nat_nonneg]) simp_all
  then have "\<exists>v. 0 \<le> v \<and> v \<le> 100 \<and> Math_min X (Fin 100) = Fin v"
    by auto
  then obtain v where v: "0 \<le> v" "v \<le> 100" "Math_min X (Fin 100) = Fin v" by blast
  have "keywordScore content = Fin v"
    using v(3) by (simp add: keywordScore_def length_jobKeywords X_def)
  then show ?thesis using Math_round_range [OF v(1) v(2)] by simp
qed

lemma readability_blank:
  assumes "words_of content = []"
  shows "Math_round (readabilityScore content) = NaN"
proof -
  have "jdiv (num (complex_of content)) (num (length (words_of content))) = NaN"
    using assms by (simp add: complex_of_def num_def)
  then show ?thesis by (simp add: readabilityScore_def jsub_NaN_right)
qed

lemma deviation_nonneg:
  assumes "X = PInf \<or> (\<exists>a. 0 \<le> a \<and> X = Fin a)"
  shows "jmul (Math_abs (jsub X (Fin 15))) (Fin 2) = PInf
         \<or> (\<exists>d. 0 \<le> d \<and> jmul (Math_abs (jsub X (Fin 15))) (Fin 2) = Fin d)"
proof -
  have "Math_abs (jsub X (Fin 15)) = PInf
        \<or> (\<exists>z. 0 \<le> z \<and> Math_abs (jsub X (Fin 15)) = Fin z)"
  proof -
    from assms consider "X = PInf" | a where "X = Fin a" by blast
    then show ?thesis
    proof cases
      case 1
      then show ?thesis by simp
    next
      case 2
      then show ?thesis using fl_not_NaN [of "a - 15"] by (cases "fl (a - 15)") auto
    qed
  qed
  then show ?thesis by (rule jmul_pos_nonneg) simp
qed

lemma hundred_minus:
  assumes "A = PInf \<or> (\<exists>d. 0 \<le> d \<and> A = Fin d)"
  shows "jsub (Fin 100) A = NInf \<or> (\<exists>y. jsub (Fin 100) A = Fin y)"
proof -
  from assms consider "A = PInf" | d where "0 \<le> d" "A = Fin d" by blast
  then show ?thesis
  proof cases
    case 1
    then show ?thesis by simp
  next
    case 2
    show ?thesis
    proof (cases "0 \<le> 100 - d")
      case True
      moreover have "100 - d \<le> 2 ^ 7" using 2 by simp
      ultimately have "\<exists>y. fl (100 - d) = Fin y \<and> 0 \<le> y \<and> y \<le> 2 ^ 7"
        by (rule fl_le_pow2) simp
      then show ?thesis using 2 by auto
    next
      case False
      then have "100 - d \<le> 0" by simp
      from fl_nonpos [OF this] show ?thesis using 2 by auto
    qed
  qed
qed

lemma minus_share:
  assumes "Y = NInf \<or> (\<exists>y. Y = Fin y)" and "B = PInf \<or> (\<exists>b. 0 \<le> b \<and> B = Fin b)"
  shows "jsub Y B \<noteq> NaN"
proof -
  from assms(1) consider "Y = NInf" | y where "Y = Fin y" by blast
  then show ?thesis
  proof cases
    case 1
    then show ?thesis using assms(2) by auto
  next
    case 2
    then show ?thesis using assms(2) fl_not_NaN by auto
  qed
qed

lemma Math_min_100:
  assumes "Z \<noteq> NaN"
  shows "Math_min Z (Fin 100) = NInf \<or> (\<exists>v. v \<le> 100 \<and> Math_min Z (Fin 100) = Fin v)"
  using assms by (cases Z) auto

lemma readability_range:
  assumes "words_of content \<noteq> []"
  shows "Math_round (readabilityScore content) = NInf
         \<or> (\<exists>R. R \<le> 100 \<and> Math_round (readabilityScore content) = Fin (of_int R))"
proof -
  have w: "0 < length (words_of content)" using assms by simp
  define A where "A = jmul (Math_abs (jsub (avgWords content) (Fin 15))) (Fin 2)"
  define B where
    "B = jmul (jdiv (num (complex_of content)) (num (length (words_of content)))) (Fin 50)"
  have "avgWords content = PInf \<or> (\<exists>a. 0 \<le> a \<and> avgWords content = Fin a)"
    unfolding avgWords_def
  proof (cases "length (sentences_of content) = 0")
    case True
    then show "jdiv (num (length (words_of content))) (num (length (sentences_of content))) = PInf
       \<or> (\<exists>a\<ge>0. jdiv (num (length (words_of content))) (num (length (sentences_of content))) = Fin a)"
      using w by (simp add: num_def)
  next
    case False
    then have "0 < length (sentences_of content)" by simp
    then show "jdiv (num (length (words_of content))) (num (length (sentences_of content))) = PInf
       \<or> (\<exists>a\<ge>0. jdiv (num (length (words_of content))) (num (length (sentences_of content))) = Fin a)"
      by (rule jdiv_nat_nonneg)
  qed
  then have "A = PInf \<or> (\<exists>d. 0 \<le> d \<and> A = Fin d)"
    unfolding A_def by (rule deviation_nonneg)
  then have y: "jsub (Fin 100) A = NInf \<or> (\<exists>y. jsub (Fin 100) A = Fin y)"
    by (rule hundred_minus)
  have "B = PInf \<or> (\<exists>b. 0 \<le> b \<and> B = Fin b)"
    unfolding B_def by (rule jmul_pos_nonneg [OF jdiv_nat_nonneg [OF w]]) simp
  with y have "jsub (jsub (Fin 100) A) B \<noteq> NaN" by (rule minus_share)
  then have "Math_min (jsub (jsub (Fin 100) A) B) (Fin 100) = NInf
     \<or> (\<exists>v. v \<le> 100 \<and> Math_min (jsub (jsub (Fin 100) A) B) (Fin 100) = Fin v)"
    by (rule Math_min_100)
  then have "readabilityScore content = NInf
     \<or> (\<exists>v. v \<le> 100 \<and> readabilityScore content = Fin v)"
    by (simp add: readabilityScore_def A_def B_def)
  then consider "readabilityScore content = NInf"
    | v where "v \<le> 100" "readabilityScore content = Fin v" by blast
  then show ?thesis
  proof cases
    case 1
    then show ?thesis by simp
  next
    case 2
    then show ?thesis using Math_round_le [OF 2(1)] by simp
  qed
qed

section \<open>Two-sided bounds of the rounding\<close>

lemma round_half_even_ge: "of_int K \<le> x \<Longrightarrow> K \<le> round_half_even x"
proof -
  assume "of_int K \<le> x"
  then have "K \<le> \<lfloor>x\<rfloor>" by (simp add: le_floor_iff)
  then show ?thesis by (simp add: round_half_even_def Let_def)
qed

lemma pow2_multiple:
  assumes "q \<le> int n"
  shows "\<exists>K::int. 2 ^ n = of_int K * pow2 q"
proof (cases "0 \<le> q")
  case True
  with assms have "nat q \<le> n" by simp
  then have "(2::rat) ^ n = 2 ^ (n - nat q) * 2 ^ nat q"
    by (simp flip: power_add)
  then have "(2::rat) ^ n = of_int (2 ^ (n - nat q)) * pow2 q"
    using True by (simp add: pow2_def)
  then show ?thesis by blast
next
  case False
  then have "(2::rat) ^ n = of_int (2 ^ (n + nat (- q))) * pow2 q"
    by (simp add: pow2_def power_add)
  then show ?thesis by blast
qed

lemma fl_ge_neg_pow2:
  assumes "x \<le> 0" and "- (2 ^ n) \<le> x" and "n \<le> 1023"
  shows "\<exists>y. fl x = Fin y \<and> - (2 ^ n) \<le> y \<and> y \<le> 0"
proof (cases "x = 0")
  case True
  then show ?thesis by (simp add: fl_def)
next
  case False
  define q where "q = max (ilog2 \<bar>x\<bar> - 52) (- 1074)"
  define y where "y = of_int (round_half_even (x / pow2 q)) * pow2 q"
  have "\<bar>x\<bar> \<le> 2 ^ n" using assms by simp
  then have "ilog2 \<bar>x\<bar> \<le> int n" by (rule ilog2_le)
  then have qn: "q \<le> int n" by (simp add: q_def)
  have "x / pow2 q \<le> 0" using assms pow2_pos [of q] by (simp add: divide_le_0_iff)
  then have "round_half_even (x / pow2 q) \<le> 0" by (rule round_half_even_nonpos)
  then have y0: "y \<le> 0" using pow2_pos [of q] by (simp add: y_def mult_le_0_iff)
  from pow2_multiple [OF qn] obtain K :: int where K: "2 ^ n = of_int K * pow2 q" by blast
  have "of_int (- K) \<le> x / pow2 q"
    using assms(2) K pow2_pos [of q] by (simp add: pos_le_divide_eq)
  then have "- K \<le> round_half_even (x / pow2 q)" by (rule round_half_even_ge)
  then have "of_int (- K) * pow2 q \<le> of_int (round_half_even (x / pow2 q)) * pow2 q"
    using pow2_pos [of q] by (simp only: mult_le_cancel_right_pos of_int_le_iff)
  then have yn: "- (2 ^ n) \<le> y" using K by (simp add: y_def)
  then have "\<bar>y\<bar> \<le> 2 ^ n" using y0 by simp
  then have "ilog2 \<bar>y\<bar> \<le> int n" by (rule ilog2_le)
  then have "\<not> 1024 \<le> ilog2 \<bar>y\<bar>" using assms(3) by simp
  moreover have "fl x = (if 1024 \<le> ilog2 \<bar>y\<bar> then (if 0 < y then PInf else NInf) else Fin y)"
    using False by (simp add: fl_def Let_def q_def y_def)
  ultimately show ?thesis using y0 yn by simp
qed

lemma fl_between:
  assumes "- (2 ^ m) \<le> x" and "x \<le> 2 ^ n" and "m \<le> 1023" and "n \<le> 1023"
  shows "\<exists>y. fl x = Fin y \<and> - (2 ^ m) \<le> y \<and> y \<le> 2 ^ n"
proof (cases "0 \<le> x")
  case True
  from fl_le_pow2 [OF True assms(2) assms(4)] obtain y
    where y: "fl x = Fin y" "0 \<le> y" "y \<le> 2 ^ n" by blast
  have "- (2 ^ m) \<le> (0::rat)" by simp
  with y show ?thesis by (metis order_trans)
next
  case False
  then have "x \<le> 0" by simp
  from fl_ge_neg_pow2 [OF this assms(1) assms(3)] obtain y
    where y: "fl x = Fin y" "- (2 ^ m) \<le> y" "y \<le> 0" by blast
  have "(0::rat) \<le> 2 ^ n" by simp
  with y show ?thesis by (metis order_trans)
qed

lemma ilog2_less:
  assumes "x < 2 ^ n" and "0 < n"
  shows "ilog2 x < int n"
proof (cases "1 \<le> x")
  case True
  have "\<lfloor>x\<rfloor> < 2 ^ n" using assms(1) by (simp add: floor_less_iff)
  then have "nat \<lfloor>x\<rfloor> < 2 ^ n" by (simp add: nat_less_iff)
  then have "bitlen (nat \<lfloor>x\<rfloor>) \<le> n" by (rule bitlen_le)
  with True assms(2) show ?thesis by (simp add: ilog2_def)
next
  case False
  then show ?thesis using assms(2) by (simp add: ilog2_def)
qed

lemma fl_quarter:
  assumes "\<bar>k\<bar> < 2 ^ 53"
  shows "fl (of_int k / 4) = Fin (of_int k / 4)"
proof (cases "k = 0")
  case True
  then show ?thesis by (simp add: fl_def)
next
  case False
  define x :: rat where "x = of_int k / 4"
  define q where "q = max (ilog2 \<bar>x\<bar> - 52) (- 1074)"
  define j where "j = nat (- q) - 2"
  have x0: "x \<noteq> 0" using False by (simp add: x_def)
  have "\<bar>rat_of_int k\<bar> < 2 ^ 53" using assms
    by (metis of_int_abs of_int_less_iff of_int_numeral of_int_power)
  then have "\<bar>x\<bar> < 2 ^ 51" by (simp add: x_def)
  then have e: "ilog2 \<bar>x\<bar> < 51" using ilog2_less [of "\<bar>x\<bar>" 51] by simp
  then have q2: "q \<le> - 2" by (simp add: q_def)
  then have "nat (- q) = j + 2" by (simp add: j_def)
  moreover have "pow2 q = 1 / 2 ^ nat (- q)" using q2 by (simp add: pow2_nonpos)
  ultimately have p: "pow2 q = 1 / (2 ^ j * 4)" by (simp add: power_add)
  have "x / pow2 q = of_int (k * 2 ^ j)" by (simp add: p x_def)
  then have "round_half_even (x / pow2 q) = k * 2 ^ j"
    by (simp only: round_half_even_of_int)
  then have y: "of_int (round_half_even (x / pow2 q)) * pow2 q = x"
    by (simp add: p x_def)
  have "fl x = Fin x"
    using x0 e by (simp add: fl_def Let_def y flip: q_def)
  then show ?thesis by (simp add: x_def)
qed

section \<open>The readability score of a text with a sentence\<close>

lemma count_split_go:
  "length (filter (\<lambda>w. 0 < length w) (split_go C frag inrun s)) \<le> length frag + length s"
proof (induction s arbitrary: frag inrun)
  case Nil
  then show ?case by (cases frag) simp_all
next
  case (Cons c cs)
  have t: "length (filter (\<lambda>w. 0 < length w) (split_go C [] True cs)) \<le> length cs"
    using Cons.IH [of "[]" True] by simp
  have f: "length (filter (\<lambda>w. 0 < length w) (split_go C (c # frag) False cs))
             \<le> Suc (length frag + length cs)"
    using Cons.IH [of "c # frag" False] by simp
  have g: "length (filter (\<lambda>w. 0 < length w) [rev frag]) \<le> length frag"
    by (cases frag) simp_all
  show ?case
  proof (cases "C c")
    case True
    show ?thesis
    proof (cases inrun)
      case True
      with \<open>C c\<close> t show ?thesis by simp
    next
      case False
      have "length (filter (\<lambda>w. 0 < length w) (rev frag # split_go C [] True cs))
              = length (filter (\<lambda>w. 0 < length w) [rev frag])
                + length (filter (\<lambda>w. 0 < length w) (split_go C [] True cs))"
        by simp
      also have "\<dots> \<le> length frag + length cs" using g t by (rule add_mono)
      finally show ?thesis using \<open>C c\<close> False by simp
    qed
  next
    case False
    with f show ?thesis by simp
  qed
qed

lemma length_words_of: "length (words_of content) \<le> length content"
  using count_split_go [of isSpace "[]" False content] by (simp add: words_of_def split_def)

lemma complex_of_le: "complex_of content \<le> length (words_of content)"
  by (simp add: complex_of_def)

lemma sentences_words:
  assumes "sentences_of content \<noteq> []"
  shows "words_of content \<noteq> []"
proof -
  from assms obtain c where "c \<in> set content" "\<not> isSpace c"
    unfolding sentences_of_Nil_iff by blast
  then show ?thesis unfolding words_of_Nil_iff by blast
qed

lemma readability_no_sentence:
  assumes "sentences_of content = []" and "words_of content \<noteq> []"
  shows "Math_round (readabilityScore content) = NInf"
proof -
  have w: "0 < length (words_of content)" using assms(2) by simp
  have a: "avgWords content = PInf" using assms by (simp add: avgWords_no_sentence)
  define B where
    "B = jmul (jdiv (num (complex_of content)) (num (length (words_of content)))) (Fin 50)"
  have "B = PInf \<or> (\<exists>b. 0 \<le> b \<and> B = Fin b)"
    unfolding B_def by (rule jmul_pos_nonneg [OF jdiv_nat_nonneg [OF w]]) simp
  then have "jsub NInf B = NInf" by auto
  then show ?thesis by (simp add: readabilityScore_def a flip: B_def)
qed

lemma readability_finite:
  assumes s: "sentences_of content \<noteq> []" and l: "length content \<le> 2 ^ 32"
  shows "\<exists>R. - (2 ^ 34) \<le> R \<and> R \<le> 100
             \<and> Math_round (readabilityScore content) = Fin (of_int R)"
proof -
  define w where "w = length (words_of content)"
  define n where "n = length (sentences_of content)"
  define c where "c = complex_of content"
  have w0: "0 < w" using sentences_words [OF s] by (simp add: w_def)
  have n0: "0 < n" using s by (simp add: n_def)
  have "w \<le> 2 ^ 32" using length_words_of [of content] l by (simp add: w_def)
  then have wr: "rat_of_nat w \<le> 2 ^ 32"
    by (metis of_nat_le_iff of_nat_numeral of_nat_power)
  have cw: "c \<le> w" using complex_of_le [of content] by (simp add: c_def w_def)
  \<comment> \<open>the average\<close>
  have "rat_of_nat w / of_nat n \<le> of_nat w"
    using n0 by (simp add: divide_le_eq mult_le_cancel_left1) 
  with wr have "rat_of_nat w / of_nat n \<le> 2 ^ 32" by simp
  moreover have "0 \<le> rat_of_nat w / of_nat n" by simp
  ultimately obtain a where a: "fl (of_nat w / of_nat n) = Fin a" "0 \<le> a" "a \<le> 2 ^ 32"
    using fl_le_pow2 [of "of_nat w / of_nat n" 32] by auto
  have avg: "avgWords content = Fin a"
    using a(1) n0 by (simp add: avgWords_def num_def flip: w_def n_def)
  \<comment> \<open>its distance from 15, doubled\<close>
  have "- (2 ^ 4) \<le> a - 15" "a - 15 \<le> 2 ^ 32" using a by simp_all
  then obtain z where z: "fl (a - 15) = Fin z" "- (2 ^ 4) \<le> z" "z \<le> 2 ^ 32"
    using fl_between [of 4 "a - 15" 32] by auto
  have "0 \<le> \<bar>z\<bar> * 2" "\<bar>z\<bar> * 2 \<le> 2 ^ 33" using z by simp_all
  then obtain d where d: "fl (\<bar>z\<bar> * 2) = Fin d" "0 \<le> d" "d \<le> 2 ^ 33"
    using fl_le_pow2 [of "\<bar>z\<bar> * 2" 33] by auto
  have "- (2 ^ 33) \<le> 100 - d" "100 - d \<le> 2 ^ 7" using d by simp_all
  then obtain y where y: "fl (100 - d) = Fin y" "- (2 ^ 33) \<le> y" "y \<le> 2 ^ 7"
    using fl_between [of 33 "100 - d" 7] by auto
  \<comment> \<open>the share of complex words\<close>
  have "rat_of_nat c / of_nat w \<le> 1" using cw w0 by (simp add: divide_le_eq)
  then have "rat_of_nat c / of_nat w \<le> 2 ^ 0" by simp
  moreover have "0 \<le> rat_of_nat c / of_nat w" by simp
  ultimately obtain t where t: "fl (of_nat c / of_nat w) = Fin t" "0 \<le> t" "t \<le> 2 ^ 0"
    using fl_le_pow2 [of "of_nat c / of_nat w" 0] by auto
  have "0 \<le> t * 50" "t * 50 \<le> 2 ^ 6" using t by simp_all
  then obtain b where b: "fl (t * 50) = Fin b" "0 \<le> b" "b \<le> 2 ^ 6"
    using fl_le_pow2 [of "t * 50" 6] by auto
  have "- (2 ^ 34) \<le> y - b" "y - b \<le> 2 ^ 7" using y b by simp_all
  then obtain v where v: "fl (y - b) = Fin v" "- (2 ^ 34) \<le> v" "v \<le> 2 ^ 7"
    using fl_between [of 34 "y - b" 7] by auto
  have "readabilityScore content = Math_min (Fin v) (Fin 100)"
    using w0 by (simp add: readabilityScore_def avg z(1) d(1) y(1) t(1) b(1) v(1) num_def
        flip: w_def c_def)
  then have rs: "readabilityScore content = Fin (min v 100)"
    by (simp add: min_def)
  define R where "R = \<lfloor>min v 100 + 1 / 2\<rfloor>"
  have "min v 100 + 1 / 2 < of_int 100 + 1" by simp
  then have "R < 100 + 1" unfolding R_def by (simp only: floor_less_iff)
  then have r1: "R \<le> 100" by simp
  have "rat_of_int (- (2 ^ 34)) \<le> min v 100 + 1 / 2" using v(2) by simp
  then have r2: "- (2 ^ 34) \<le> R" unfolding R_def by (simp only: le_floor_iff)
  have "Math_round (readabilityScore content) = Fin (of_int R)"
    by (simp add: rs R_def)
  with r1 r2 show ?thesis by blast
qed

section \<open>The ranges, and a text with a negative readability score\<close>

lemma Math_round_neg_numeral: "Math_round (Fin (- numeral w)) = Fin (- numeral w)"
  using Math_round_int [of "- numeral w"] by simp

lemma many_words_words: "length (words_of (concat (replicate 66 ''a ''))) = 66"
  by code_simp

lemma many_words_sentences: "length (sentences_of (concat (replicate 66 ''a ''))) = 1"
  by code_simp

lemma many_words_complex: "complex_of (concat (replicate 66 ''a '')) = 0"
  by code_simp

lemma many_words_readability:
  "Math_round (readabilityScore (concat (replicate 66 ''a ''))) = Fin (- 2)"
  by (simp add: readabilityScore_def avgWords_def many_words_words many_words_sentences
      many_words_complex num_def fl_0 fl_numeral fl_neg_numeral Math_round_neg_numeral
      del: Math_round.simps)

lemma empty_readability: "Math_round (readabilityScore '''') = NaN"
  by (rule readability_blank) (rule empty_words)

text \<open>
  C2, as claimed, fails on the empty text: its readability sub-score is NaN, which is
  not at most 100.
\<close>

theorem sub_score_ranges_counterexample:
  "readability (breakdown (analyzeResume '''')) = NaN
   \<and> \<not> jle (readability (breakdown (analyzeResume ''''))) (Fin 100)"
  by (simp add: analyze_breakdown breakdown_of_sel empty_readability del: Math_round.simps)

text \<open>
  C2, amended. For every text the rounded formatting, keyword and grammar sub-scores
  are integers from 0 to 100. For every text with a character that is no white space,
  which are the texts the component passes to \<open>analyzeResume\<close>, the rounded readability
  sub-score is at most 100: it is \<open>-Infinity\<close> when the text has no sentence, and an
  integer when it has one and is at most \<open>2^32\<close> characters long (the engines' strings
  are shorter), which may be negative: it is \<open>-2\<close> for a sentence of 66 one-letter words.
  For the empty text and for white space only it is NaN.
\<close>

theorem sub_score_ranges:
  "(\<exists>F. 0 \<le> F \<and> F \<le> 100
        \<and> formatting (breakdown (analyzeResume content)) = Fin (of_int F))
   \<and> (\<exists>K. 0 \<le> K \<and> K \<le> 100
        \<and> keywords (breakdown (analyzeResume content)) = Fin (of_int K))
   \<and> (\<exists>G. 0 \<le> G \<and> G \<le> 100
        \<and> grammar (breakdown (analyzeResume content)) = Fin (of_int G))
   \<and> (trim content \<noteq> [] \<longrightarrow>
        readability (breakdown (analyzeResume content)) = NInf
        \<or> (\<exists>R. R \<le> 100 \<and> readability (breakdown (analyzeResume content)) = Fin (of_int R)))
   \<and> (trim content \<noteq> [] \<longrightarrow>
        jle (readability (breakdown (analyzeResume content))) (Fin 100))
   \<and> (trim content = [] \<longrightarrow> readability (breakdown (analyzeResume content)) = NaN)
   \<and> (sentences_of content = [] \<and> trim content \<noteq> [] \<longrightarrow>
        readability (breakdown (analyzeResume content)) = NInf)
   \<and> (sentences_of content \<noteq> [] \<and> length content \<le> 2 ^ 32 \<longrightarrow>
        (\<exists>R. R \<le> 100 \<and> readability (breakdown (analyzeResume content)) = Fin (of_int R)))
   \<and> (\<forall>r. stored_analysis content = Some r \<longrightarrow> jle (readability (breakdown r)) (Fin 100))
   \<and> readability (breakdown (analyzeResume (concat (replicate 66 ''a '')))) = Fin (- 2)"
proof -
  have r: "readability (breakdown (analyzeResume content)) = NInf
        \<or> (\<exists>R. R \<le> 100 \<and> readability (breakdown (analyzeResume content)) = Fin (of_int R))"
    if "trim content \<noteq> []"
  proof -
    from that have "words_of content \<noteq> []" by (simp add: words_of_Nil_trim)
    from readability_range [OF this] show ?thesis
      by (simp add: analyze_breakdown breakdown_of_sel del: Math_round.simps)
  qed
  have j: "jle (readability (breakdown (analyzeResume content))) (Fin 100)"
    if "trim content \<noteq> []"
    using r [OF that] by auto
  have n: "readability (breakdown (analyzeResume content)) = NaN" if "trim content = []"
  proof -
    from that have "words_of content = []" by (simp add: words_of_Nil_trim)
    from readability_blank [OF this] show ?thesis
      by (simp add: analyze_breakdown breakdown_of_sel del: Math_round.simps)
  qed
  have i: "readability (breakdown (analyzeResume content)) = NInf"
    if "sentences_of content = [] \<and> trim content \<noteq> []"
  proof -
    from that have "sentences_of content = []" "words_of content \<noteq> []"
      by (simp_all add: words_of_Nil_trim)
    from readability_no_sentence [OF this] show ?thesis
      by (simp add: analyze_breakdown breakdown_of_sel del: Math_round.simps)
  qed
  have f: "\<exists>R. R \<le> 100 \<and> readability (breakdown (analyzeResume content)) = Fin (of_int R)"
    if "sentences_of content \<noteq> [] \<and> length content \<le> 2 ^ 32"
  proof -
    from that have "sentences_of content \<noteq> []" "length content \<le> 2 ^ 32" by simp_all
    from readability_finite [OF this] show ?thesis
      unfolding analyze_breakdown breakdown_of_sel by blast
  qed
  have s: "\<forall>r. stored_analysis content = Some r \<longrightarrow> jle (readability (breakdown r)) (Fin 100)"
    using j by (auto simp: stored_analysis_def split: if_splits)
  have e: "readability (breakdown (analyzeResume (concat (replicate 66 ''a '')))) = Fin (- 2)"
    unfolding analyze_breakdown breakdown_of_sel by (rule many_words_readability)
  show ?thesis
    using formatting_range [of content] keywords_range [of content] grammar_range [of content]
      r j n i f s e
    unfolding analyze_breakdown breakdown_of_sel by blast
qed

theorem sub_score_ranges_witness:
  "trim ''Resume'' \<noteq> []
   \<and> stored_analysis ''Resume'' = Some (analyzeResume ''Resume'')
   \<and> jle (readability (breakdown (analyzeResume ''Resume''))) (Fin 100)"
proof -
  have t: "trim ''Resume'' \<noteq> []" by code_simp
  then have "stored_analysis ''Resume'' = Some (analyzeResume ''Resume'')"
    by (simp add: stored_analysis_def)
  then show ?thesis using sub_score_ranges [of "''Resume''"] t by blast
qed

section \<open>The overall score\<close>

lemma jadd_int:
  assumes "\<bar>a + b\<bar> < 2 ^ 53"
  shows "jadd (Fin (of_int a)) (Fin (of_int b)) = Fin (of_int (a + b))"
  using fl_of_int [OF assms] by simp

lemma round_quarter: "\<lfloor>rat_of_int S / 4 + 1 / 2\<rfloor> = (S + 2) div 4"
proof -
  have "rat_of_int S / 4 + 1 / 2 = rat_of_int (S + 2) / rat_of_int 4" by simp
  then show ?thesis by (simp only: floor_divide_of_int_eq)
qed

lemma overall_exact:
  assumes "formatting b = Fin (of_int F)" "0 \<le> F" "F \<le> 100"
    and "keywords b = Fin (of_int K)" "0 \<le> K" "K \<le> 100"
    and "grammar b = Fin (of_int G)" "0 \<le> G" "G \<le> 100"
    and "readability b = Fin (of_int R)" "- (2 ^ 34) \<le> R" "R \<le> 100"
  shows "overall_of b = Fin (of_int ((F + K + G + R + 2) div 4))"
proof -
  have 1: "jadd (Fin (of_int F)) (Fin (of_int K)) = Fin (of_int (F + K))"
    using assms by (intro jadd_int) simp
  have 2: "jadd (Fin (of_int (F + K))) (Fin (of_int G)) = Fin (of_int (F + K + G))"
    using assms by (intro jadd_int) simp
  have 3: "jadd (Fin (of_int (F + K + G))) (Fin (of_int R)) = Fin (of_int (F + K + G + R))"
    using assms by (intro jadd_int) simp
  have "\<bar>F + K + G + R\<bar> < 2 ^ 53" using assms by simp
  then have 4: "fl (of_int (F + K + G + R) / 4) = Fin (of_int (F + K + G + R) / 4)"
    by (rule fl_quarter)
  have "overall_of b = Math_round (Fin (of_int (F + K + G + R) / 4))"
    unfolding overall_of_def assms(1,4,7,10) 1 2 3 using 4 by simp
  also have "\<dots> = Fin (of_int ((F + K + G + R + 2) div 4))"
    by (simp only: Math_round.simps round_quarter)
  finally show ?thesis .
qed

lemma analyze_exact:
  assumes "sentences_of content \<noteq> []" and "length content \<le> 2 ^ 32"
  shows "\<exists>F K G R.
           formatting (breakdown_of content) = Fin (of_int F)
           \<and> keywords (breakdown_of content) = Fin (of_int K)
           \<and> grammar (breakdown_of content) = Fin (of_int G)
           \<and> readability (breakdown_of content) = Fin (of_int R)
           \<and> overall_of (breakdown_of content) = Fin (of_int ((F + K + G + R + 2) div 4))"
proof -
  obtain F where F: "0 \<le> F" "F \<le> 100" "formatting (breakdown_of content) = Fin (of_int F)"
    using formatting_range [of content] unfolding breakdown_of_sel by blast
  obtain K where K: "0 \<le> K" "K \<le> 100" "keywords (breakdown_of content) = Fin (of_int K)"
    using keywords_range [of content] unfolding breakdown_of_sel by blast
  obtain G where G: "0 \<le> G" "G \<le> 100" "grammar (breakdown_of content) = Fin (of_int G)"
    using grammar_range [of content] unfolding breakdown_of_sel by blast
  obtain R where R: "- (2 ^ 34) \<le> R" "R \<le> 100"
      "readability (breakdown_of content) = Fin (of_int R)"
    using readability_finite [OF assms] unfolding breakdown_of_sel by blast
  have "overall_of (breakdown_of content) = Fin (of_int ((F + K + G + R + 2) div 4))"
    using F(3) F(1) F(2) K(3) K(1) K(2) G(3) G(1) G(2) R(3) R(1) R(2)
    by (rule overall_exact)
  with F K G R show ?thesis by blast
qed

lemma Resume_breakdown:
  "breakdown_of ''Resume''
     = \<lparr>formatting = Fin 50, keywords = Fin 0, grammar = Fin 85, readability = Fin 72\<rparr>"
  by code_simp

text \<open>
  C1. The overall score is \<open>Math.round\<close> of the mean of the four sub-scores, each of
  which is the \<open>Math.round\<close> of its own raw score. For a text with a sentence and at
  most \<open>2^32\<close> characters the four sub-scores are integers, the sum and the division by
  4 are exact in binary64, and the overall score is the integer nearest to their mean,
  a tie going up.
\<close>

theorem overall_is_rounded_mean:
  "overall (analyzeResume content) =
     Math_round
       (jdiv (jadd (jadd (jadd (formatting (breakdown (analyzeResume content)))
                               (keywords (breakdown (analyzeResume content))))
                         (grammar (breakdown (analyzeResume content))))
                   (readability (breakdown (analyzeResume content))))
             (Fin 4))
   \<and> formatting (breakdown (analyzeResume content)) = Math_round (formattingScore content)
   \<and> keywords (breakdown (analyzeResume content)) = Math_round (keywordScore content)
   \<and> grammar (breakdown (analyzeResume content)) = Math_round (grammarScore content)
   \<and> readability (breakdown (analyzeResume content)) = Math_round (readabilityScore content)
   \<and> (sentences_of content \<noteq> [] \<and> length content \<le> 2 ^ 32 \<longrightarrow>
        (\<exists>F K G R.
           formatting (breakdown (analyzeResume content)) = Fin (of_int F)
           \<and> keywords (breakdown (analyzeResume content)) = Fin (of_int K)
           \<and> grammar (breakdown (analyzeResume content)) = Fin (of_int G)
           \<and> readability (breakdown (analyzeResume content)) = Fin (of_int R)
           \<and> overall (analyzeResume content) = Fin (of_int ((F + K + G + R + 2) div 4))))"
proof -
  have a: "overall (analyzeResume content) =
     Math_round
       (jdiv (jadd (jadd (jadd (formatting (breakdown (analyzeResume content)))
                               (keywords (breakdown (analyzeResume content))))
                         (grammar (breakdown (analyzeResume content))))
                   (readability (breakdown (analyzeResume content))))
             (Fin 4))"
    by (simp add: analyze_overall analyze_breakdown overall_of_def del: Math_round.simps)
  have b: "formatting (breakdown (analyzeResume content)) = Math_round (formattingScore content)"
    "keywords (breakdown (analyzeResume content)) = Math_round (keywordScore content)"
    "grammar (breakdown (analyzeResume content)) = Math_round (grammarScore content)"
    "readability (breakdown (analyzeResume content)) = Math_round (readabilityScore content)"
    by (simp_all add: analyze_breakdown breakdown_of_sel del: Math_round.simps)
  have c: "\<exists>F K G R.
           formatting (breakdown (analyzeResume content)) = Fin (of_int F)
           \<and> keywords (breakdown (analyzeResume content)) = Fin (of_int K)
           \<and> grammar (breakdown (analyzeResume content)) = Fin (of_int G)
           \<and> readability (breakdown (analyzeResume content)) = Fin (of_int R)
           \<and> overall (analyzeResume content) = Fin (of_int ((F + K + G + R + 2) div 4))"
    if "sentences_of content \<noteq> [] \<and> length content \<le> 2 ^ 32"
    using that analyze_exact [of content]
    unfolding analyze_breakdown analyze_overall by blast
  show ?thesis using a b c by blast
qed

theorem overall_is_rounded_mean_witness:
  "sentences_of ''Resume'' \<noteq> [] \<and> length ''Resume'' \<le> 2 ^ 32
   \<and> overall (analyzeResume ''Resume'') = Fin 52"
proof -
  have s: "sentences_of ''Resume'' \<noteq> []" by (simp add: Resume_sentences)
  have l: "length ''Resume'' \<le> 2 ^ 32" by simp
  from overall_is_rounded_mean [of "''Resume''"] s l obtain F K G R :: int where h:
    "formatting (breakdown (analyzeResume ''Resume'')) = Fin (of_int F)"
    "keywords (breakdown (analyzeResume ''Resume'')) = Fin (of_int K)"
    "grammar (breakdown (analyzeResume ''Resume'')) = Fin (of_int G)"
    "readability (breakdown (analyzeResume ''Resume'')) = Fin (of_int R)"
    "overall (analyzeResume ''Resume'') = Fin (of_int ((F + K + G + R + 2) div 4))"
    by blast
  have "rat_of_int F = of_int 50" "rat_of_int K = of_int 0" "rat_of_int G = of_int 85"
    "rat_of_int R = of_int 72"
    using h(1-4) by (simp_all add: analyze_breakdown Resume_breakdown)
  then have "F = 50" "K = 0" "G = 85" "R = 72" by (simp_all only: of_int_eq_iff)
  then have "overall (analyzeResume ''Resume'') = Fin 52" using h(5) by simp
  then show ?thesis using s l by blast
qed

section \<open>Casing\<close>






















end
